theory Spec2Isabelle
  imports Main "HOL-Library.Word"
begin

unbundle bit_operations_syntax

section \<open>Big-integer calculator: the data model\<close>

text \<open>
  The calculator of \<^verbatim>\<open>bigint.c\<close>, \<^verbatim>\<open>parser.c\<close> and \<^verbatim>\<open>main.c\<close>. A limb is a
  \<^verbatim>\<open>uint32_t\<close>, the wide temporaries of the kernels are \<^verbatim>\<open>uint64_t\<close>.

  A \<^verbatim>\<open>BigInt\<close> is the C struct: \<open>sign\<close> is the field \<^verbatim>\<open>sign\<close>, \<open>digits\<close> holds the
  \<^verbatim>\<open>length\<close> active limbs \<^verbatim>\<open>digits[0 .. length-1]\<close>, least significant first (so the
  field \<^verbatim>\<open>length\<close> is \<open>length (digits n)\<close>), and \<open>capacity\<close> is the field
  \<^verbatim>\<open>capacity\<close>. The words of the buffer above \<^verbatim>\<open>length\<close> are not part of the value: the
  code writes such a word before it reads it, except for the quotient of
  \<^verbatim>\<open>bi_div_mod_abs\<close>, whose buffer \<^verbatim>\<open>bi_create\<close> and \<^verbatim>\<open>bi_resize\<close> have filled with
  zeros. Null pointers and failed allocations are not modelled: every value of the
  model stands for a live object.

  A C string is a \<open>string\<close> without its terminator; reading the index \<open>length s\<close>
  yields the terminator \<^verbatim>\<open>'\0'\<close>.
\<close>

type_synonym u32 = "32 word"
type_synonym u64 = "64 word"

record BigInt =
  sign :: int
  digits :: "u32 list"
  capacity :: nat

definition INITIAL_CAPACITY :: nat where "INITIAL_CAPACITY = 4"
definition BASE_DEC :: u32 where "BASE_DEC = 10"
definition HEX_WIDTH :: nat where "HEX_WIDTH = 8"
definition BITS_IN_WORD :: nat where "BITS_IN_WORD = 32"
definition DEC_DIVISOR :: u64 where "DEC_DIVISOR = 10"

subsection \<open>Characters\<close>

definition NUL :: char where "NUL = CHR 0x00"

definition char_at :: "string \<Rightarrow> nat \<Rightarrow> char" where
  "char_at s i = (if i < length s then s ! i else NUL)"

definition code_of :: "char \<Rightarrow> nat" where
  "code_of c = of_char c"

definition isdigit :: "char \<Rightarrow> bool" where
  "isdigit c = (48 \<le> code_of c \<and> code_of c \<le> 57)"

definition isspace :: "char \<Rightarrow> bool" where
  "isspace c = (code_of c = 32 \<or> (9 \<le> code_of c \<and> code_of c \<le> 13))"

definition isalpha :: "char \<Rightarrow> bool" where
  "isalpha c = ((65 \<le> code_of c \<and> code_of c \<le> 90) \<or> (97 \<le> code_of c \<and> code_of c \<le> 122))"

definition isxdigit :: "char \<Rightarrow> bool" where
  "isxdigit c = (isdigit c \<or> (97 \<le> code_of c \<and> code_of c \<le> 102)
     \<or> (65 \<le> code_of c \<and> code_of c \<le> 70))"

text \<open>\<^verbatim>\<open>hex_value\<close>: the value of a hexadecimal digit, \<open>-1\<close> for any other character.\<close>

definition hex_value :: "char \<Rightarrow> int" where
  "hex_value c =
     (if 48 \<le> code_of c \<and> code_of c \<le> 57 then int (code_of c) - 48
      else if 97 \<le> code_of c \<and> code_of c \<le> 102 then int (code_of c) - 97 + 10
      else if 65 \<le> code_of c \<and> code_of c \<le> 70 then int (code_of c) - 65 + 10
      else -1)"

subsection \<open>Creation, copy, resize, normalisation\<close>

definition bi_create :: BigInt where
  "bi_create = \<lparr>sign = 0, digits = [0], capacity = INITIAL_CAPACITY\<rparr>"

definition bi_copy :: "BigInt \<Rightarrow> BigInt" where
  "bi_copy original = original"

definition bi_resize :: "BigInt \<Rightarrow> nat \<Rightarrow> BigInt" where
  "bi_resize num required_capacity =
     (if capacity num \<ge> required_capacity then num
      else num\<lparr>capacity := required_capacity\<rparr>)"

text \<open>The loop of \<^verbatim>\<open>bi_normalize\<close>: drop the top limb while it is zero and not the only one.\<close>

function normalize_loop :: "u32 list \<Rightarrow> u32 list" where
  "normalize_loop ds =
     (if length ds > 1 \<and> ds ! (length ds - 1) = 0
      then normalize_loop (take (length ds - 1) ds) else ds)"
  by pat_completeness auto
termination
  by (relation "measure length") auto

declare normalize_loop.simps [simp del]

definition bi_normalize :: "BigInt \<Rightarrow> BigInt" where
  "bi_normalize num =
     (let ds = normalize_loop (digits num)
      in num\<lparr>digits := ds,
              sign := (if length ds = 1 \<and> ds ! 0 = 0 then 0 else sign num)\<rparr>)"

subsection \<open>In-place helpers on magnitudes\<close>

text \<open>
  Each loop over the limb index with a running carry is a recursion over the limb list,
  head (index 0) first, with the same carry.
\<close>

text \<open>
  \<^verbatim>\<open>bi_add_into_abs\<close>: the loop runs while \<^verbatim>\<open>i < max_n || carry\<close>; where \<^verbatim>\<open>i\<close> has passed
  the end of \<^verbatim>\<open>res\<close> a zero limb is appended first, where it has passed the end of \<^verbatim>\<open>b\<close>
  the addend limb is 0.
\<close>

function add_into_loop :: "u32 list \<Rightarrow> u32 list \<Rightarrow> u64 \<Rightarrow> u32 list" where
  "add_into_loop [] [] carry =
     (if carry \<noteq> 0
      then (let sum = ucast (0 :: u32) + ucast (0 :: u32) + carry
            in ucast sum # add_into_loop [] [] (drop_bit 32 sum))
      else [])"
| "add_into_loop (r # rs) [] carry =
     (let sum = ucast r + ucast (0 :: u32) + carry
      in ucast sum # add_into_loop rs [] (drop_bit 32 sum))"
| "add_into_loop [] (b # bs) carry =
     (let sum = ucast (0 :: u32) + ucast b + carry
      in ucast sum # add_into_loop [] bs (drop_bit 32 sum))"
| "add_into_loop (r # rs) (b # bs) carry =
     (let sum = ucast r + ucast b + carry
      in ucast sum # add_into_loop rs bs (drop_bit 32 sum))"
  by pat_completeness auto

lemma drop_bit_32_less: "carry \<noteq> 0 \<Longrightarrow> unat (drop_bit 32 (carry :: u64)) < unat carry"
proof -
  assume "carry \<noteq> 0"
  then have pos: "0 < unat carry" by (simp add: unat_gt_0)
  have "unat (drop_bit 32 carry) = unat carry div 2 ^ 32"
    by (simp add: unat_drop_bit_eq drop_bit_eq_div unat_div)
  also have "\<dots> < unat carry" using pos by (simp add: div_less_dividend)
  finally show ?thesis .
qed

termination add_into_loop
  by (relation "measures [\<lambda>(rs, bs, c). length rs + length bs, \<lambda>(rs, bs, c). unat c]")
     (auto simp: drop_bit_32_less)

definition bi_add_into_abs :: "BigInt \<Rightarrow> BigInt \<Rightarrow> BigInt" where
  "bi_add_into_abs res b =
     (let max_n = max (length (digits res)) (length (digits b));
          res1 = bi_resize res (max_n + 1)
      in bi_normalize (res1\<lparr>digits := add_into_loop (digits res1) (digits b) 0\<rparr>))"

text \<open>
  \<^verbatim>\<open>bi_sub_into_abs\<close>: the first loop subtracts the limbs of \<^verbatim>\<open>b\<close> with a borrow, the
  second ripples the borrow through the remaining limbs of \<^verbatim>\<open>result\<close>. The borrow
  test is the source's: the 64-bit difference exceeds the minuend limb exactly when
  it wrapped. The function requires \<open>|result| \<ge> |b|\<close>; with fewer limbs in
  \<^verbatim>\<open>result\<close> than in \<^verbatim>\<open>b\<close> the source reads outside the active limbs, and the model
  stops there.
\<close>

fun borrow_loop :: "u32 list \<Rightarrow> int \<Rightarrow> u32 list" where
  "borrow_loop [] borrow = []"
| "borrow_loop (r # rs) borrow =
     (if borrow \<noteq> 0
      then (if r > 0 then (r - 1) # rs else 0xFFFFFFFF # borrow_loop rs 1)
      else r # rs)"

fun sub_into_loop :: "u32 list \<Rightarrow> u32 list \<Rightarrow> int \<Rightarrow> u32 list" where
  "sub_into_loop rs [] borrow = borrow_loop rs borrow"
| "sub_into_loop [] (b # bs) borrow = []"
| "sub_into_loop (r # rs) (b # bs) borrow =
     (let diff = (ucast r :: u64) - ucast b - word_of_int borrow;
          borrow' = (if diff > ucast r then 1 else 0)
      in ucast diff # sub_into_loop rs bs borrow')"

definition bi_sub_into_abs :: "BigInt \<Rightarrow> BigInt \<Rightarrow> BigInt" where
  "bi_sub_into_abs result b =
     bi_normalize (result\<lparr>digits := sub_into_loop (digits result) (digits b) 0\<rparr>)"

text \<open>\<^verbatim>\<open>bi_add_digit_into\<close>: the loop stops as soon as the carry is zero.\<close>

fun add_digit_loop :: "u32 list \<Rightarrow> u64 \<Rightarrow> u32 list \<times> u64" where
  "add_digit_loop [] carry = ([], carry)"
| "add_digit_loop (d # ds) carry =
     (if carry \<noteq> 0
      then (let sum = ucast d + carry;
                (ds', carry') = add_digit_loop ds (drop_bit 32 sum)
            in (ucast sum # ds', carry'))
      else (d # ds, carry))"

definition bi_add_digit_into :: "BigInt \<Rightarrow> u32 \<Rightarrow> BigInt" where
  "bi_add_digit_into res val =
     (if val = 0 then res
      else if sign res = 0 then res\<lparr>digits := [val], sign := 1\<rparr>
      else (let (ds, carry) = add_digit_loop (digits res) (ucast val)
            in bi_normalize
                 (if carry \<noteq> 0
                  then (bi_resize res (length ds + 1))\<lparr>digits := ds @ [ucast carry]\<rparr>
                  else res\<lparr>digits := ds\<rparr>)))"

fun mul_digit_loop :: "u32 list \<Rightarrow> u32 \<Rightarrow> u64 \<Rightarrow> u32 list \<times> u64" where
  "mul_digit_loop [] digit carry = ([], carry)"
| "mul_digit_loop (d # ds) digit carry =
     (let prod = ucast d * ucast digit + carry;
          (ds', carry') = mul_digit_loop ds digit (drop_bit 32 prod)
      in (ucast prod # ds', carry'))"

definition bi_mul_digit_into :: "BigInt \<Rightarrow> u32 \<Rightarrow> BigInt" where
  "bi_mul_digit_into res digit =
     (if sign res = 0 \<or> digit = 0 then res\<lparr>digits := [0], sign := 0\<rparr>
      else (let res1 = bi_resize res (length (digits res) + 1);
                (ds, carry) = mul_digit_loop (digits res1) digit 0
            in bi_normalize
                 (if carry \<noteq> 0 then res1\<lparr>digits := ds @ [ucast carry]\<rparr>
                  else res1\<lparr>digits := ds\<rparr>)))"

text \<open>
  \<^verbatim>\<open>bi_div10_into\<close> walks from the most significant limb down: the recursion handles
  the higher limbs first and hands their remainder to the limb below.
\<close>

fun div10_loop :: "u32 list \<Rightarrow> u32 list \<times> u64" where
  "div10_loop [] = ([], 0)"
| "div10_loop (d # ds) =
     (let (qs, remainder) = div10_loop ds;
          current = ucast d + push_bit 32 remainder
      in (ucast (current div DEC_DIVISOR) # qs, current mod DEC_DIVISOR))"

definition bi_div10_into :: "BigInt \<Rightarrow> BigInt \<times> u32" where
  "bi_div10_into res =
     (if sign res = 0 then (res, 0)
      else (let (qs, remainder) = div10_loop (digits res)
            in (bi_normalize (res\<lparr>digits := qs\<rparr>), ucast remainder)))"

subsection \<open>Comparison, bits, shifting\<close>

text \<open>\<^verbatim>\<open>bi_compare_abs\<close>: lengths first, then limbs from the top; \<open>i\<close> counts down.\<close>

fun compare_loop :: "u32 list \<Rightarrow> u32 list \<Rightarrow> nat \<Rightarrow> int" where
  "compare_loop a b 0 = 0"
| "compare_loop a b (Suc i) =
     (if a ! i > b ! i then 1
      else if a ! i < b ! i then -1
      else compare_loop a b i)"

definition bi_compare_abs :: "BigInt \<Rightarrow> BigInt \<Rightarrow> int" where
  "bi_compare_abs a b =
     (if length (digits a) > length (digits b) then 1
      else if length (digits a) < length (digits b) then -1
      else compare_loop (digits a) (digits b) (length (digits a)))"

definition bi_get_bit :: "BigInt \<Rightarrow> nat \<Rightarrow> int" where
  "bi_get_bit n k =
     (let digit_idx = k div BITS_IN_WORD; bit_idx = k mod BITS_IN_WORD
      in if digit_idx < length (digits n)
         then uint (drop_bit bit_idx (digits n ! digit_idx) AND 1)
         else 0)"

function bit_length_loop :: "u32 \<Rightarrow> nat \<Rightarrow> nat" where
  "bit_length_loop last_digit bits =
     (if last_digit > 0 then bit_length_loop (drop_bit 1 last_digit) (bits + 1) else bits)"
  by pat_completeness auto

lemma drop_bit_1_less: "(d :: u32) > 0 \<Longrightarrow> unat (drop_bit (Suc 0) d) < unat d"
proof -
  assume "d > 0"
  then have pos: "0 < unat d" by (simp add: word_less_nat_alt)
  have "unat (drop_bit (Suc 0) d) = unat d div 2"
    by (simp add: unat_drop_bit_eq drop_bit_eq_div unat_div)
  also have "\<dots> < unat d" using pos by simp
  finally show ?thesis .
qed

termination bit_length_loop
  by (relation "measure (\<lambda>(d, bits). unat d)") (auto simp: drop_bit_1_less)

declare bit_length_loop.simps [simp del]

definition bi_bit_length :: "BigInt \<Rightarrow> nat" where
  "bi_bit_length n =
     (if sign n = 0 then 0
      else bit_length_loop (digits n ! (length (digits n) - 1))
             ((length (digits n) - 1) * BITS_IN_WORD))"

fun shift_loop :: "u32 list \<Rightarrow> u32 \<Rightarrow> u32 list \<times> u32" where
  "shift_loop [] carry = ([], carry)"
| "shift_loop (d # ds) carry =
     (let next_carry = drop_bit 31 d;
          (ds', carry') = shift_loop ds next_carry
      in ((push_bit 1 d OR carry) # ds', carry'))"

definition bi_shift_left_one :: "BigInt \<Rightarrow> BigInt" where
  "bi_shift_left_one n =
     (if sign n = 0 then n
      else (let n1 = bi_resize n (length (digits n) + 1);
                (ds, carry) = shift_loop (digits n1) 0
            in if carry \<noteq> 0 then n1\<lparr>digits := ds @ [carry]\<rparr> else n1\<lparr>digits := ds\<rparr>))"

subsection \<open>Magnitude arithmetic\<close>

definition bi_add_abs :: "BigInt \<Rightarrow> BigInt \<Rightarrow> BigInt" where
  "bi_add_abs a b =
     (if bi_compare_abs a b \<ge> 0 then bi_add_into_abs (bi_copy a) b
      else bi_add_into_abs (bi_copy b) a)"

definition bi_sub_abs :: "BigInt \<Rightarrow> BigInt \<Rightarrow> BigInt" where
  "bi_sub_abs a b = bi_sub_into_abs (bi_copy a) b"

text \<open>
  Setting bit \<open>i\<close> of the quotient: \<^verbatim>\<open>q->digits[i / 32] |= 1U << (i % 32)\<close>, then
  \<^verbatim>\<open>length\<close> is raised to cover that limb. The limbs between the old length and the new
  one come from the zero-filled buffer.
\<close>

definition quotient_set_bit :: "BigInt \<Rightarrow> nat \<Rightarrow> BigInt" where
  "quotient_set_bit q i =
     (let idx = i div BITS_IN_WORD;
          q1 = bi_resize q (idx + 1);
          ds = (if length (digits q1) \<le> idx
                then digits q1 @ replicate (idx + 1 - length (digits q1)) 0
                else digits q1)
      in q1\<lparr>digits := ds[idx := ds ! idx OR push_bit (i mod BITS_IN_WORD) 1], sign := 1\<rparr>)"

text \<open>
  The loop of \<^verbatim>\<open>bi_div_mod_abs\<close>, \<^verbatim>\<open>for (i = bits - 1; i >= 0; i--)\<close>: the counter of
  the recursion is \<open>i + 1\<close>.
\<close>

fun div_mod_loop :: "BigInt \<Rightarrow> BigInt \<Rightarrow> nat \<Rightarrow> BigInt \<Rightarrow> BigInt \<Rightarrow> BigInt \<times> BigInt" where
  "div_mod_loop a b 0 q r = (q, r)"
| "div_mod_loop a b (Suc i) q r =
     (let r1 = bi_shift_left_one r;
          r2 = (if bi_get_bit a i \<noteq> 0
                then r1\<lparr>digits := (digits r1)[0 := digits r1 ! 0 OR 1], sign := 1\<rparr>
                else r1);
          r3 = bi_normalize r2
      in if bi_compare_abs r3 b \<ge> 0
         then div_mod_loop a b i (quotient_set_bit q i) (bi_sub_into_abs r3 b)
         else div_mod_loop a b i q r3)"

definition bi_div_mod_abs :: "BigInt \<Rightarrow> BigInt \<Rightarrow> (BigInt \<times> BigInt) option" where
  "bi_div_mod_abs a b =
     (if sign b = 0 then None
      else if bi_compare_abs a b < 0 then Some (bi_create, bi_copy a)
      else (let (q, r) = div_mod_loop a b (bi_bit_length a) bi_create bi_create
            in Some (bi_normalize q, r)))"

subsection \<open>Signed operations\<close>

definition bi_negate :: "BigInt \<Rightarrow> BigInt" where
  "bi_negate a =
     (let result = bi_copy a
      in if sign result = 0 then result else result\<lparr>sign := - sign result\<rparr>)"

definition bi_add :: "BigInt \<Rightarrow> BigInt \<Rightarrow> BigInt" where
  "bi_add a b =
     (if sign a = 0 then bi_copy b
      else if sign b = 0 then bi_copy a
      else if sign a = sign b then (bi_add_abs a b)\<lparr>sign := sign a\<rparr>
      else (let cmp = bi_compare_abs a b
            in if cmp = 0 then bi_create
               else if cmp > 0 then (bi_sub_abs a b)\<lparr>sign := sign a\<rparr>
               else (bi_sub_abs b a)\<lparr>sign := sign b\<rparr>))"

definition bi_sub :: "BigInt \<Rightarrow> BigInt \<Rightarrow> BigInt" where
  "bi_sub a b = bi_add a (bi_negate b)"

text \<open>
  \<^verbatim>\<open>bi_mul\<close>, schoolbook. \<open>mul_inner\<close> is the loop over \<^verbatim>\<open>j\<close> for one limb \<^verbatim>\<open>a[i]\<close>: its
  list arguments are \<^verbatim>\<open>b[j ..]\<close> and \<^verbatim>\<open>res[i + j ..]\<close>; at the end of \<^verbatim>\<open>b\<close> the carry is
  added into \<^verbatim>\<open>res[i + b->length]\<close> and rippled upwards while \<^verbatim>\<open>k < res->length\<close>.
  \<open>mul_outer\<close> is the loop over \<^verbatim>\<open>i\<close>: row \<^verbatim>\<open>i\<close> leaves \<^verbatim>\<open>res[i]\<close> final and the later
  rows work on \<^verbatim>\<open>res[i + 1 ..]\<close>.
\<close>

fun mul_ripple :: "u32 list \<Rightarrow> u64 \<Rightarrow> u32 list" where
  "mul_ripple [] ripple = []"
| "mul_ripple (r # rs) ripple =
     (if ripple > 0
      then (let sum = ucast r + ripple in ucast sum # mul_ripple rs (drop_bit 32 sum))
      else r # rs)"

fun mul_inner :: "u32 \<Rightarrow> u32 list \<Rightarrow> u32 list \<Rightarrow> u64 \<Rightarrow> u32 list" where
  "mul_inner ai [] [] carry = []"
| "mul_inner ai [] (r # rs) carry =
     (if carry \<noteq> 0
      then (let sum = ucast r + carry in ucast sum # mul_ripple rs (drop_bit 32 sum))
      else r # rs)"
| "mul_inner ai (bj # bs) [] carry = []"
| "mul_inner ai (bj # bs) (r # rs) carry =
     (let current = ucast ai * ucast bj + ucast r + carry
      in ucast current # mul_inner ai bs rs (drop_bit 32 current))"

fun mul_outer :: "u32 list \<Rightarrow> u32 list \<Rightarrow> u32 list \<Rightarrow> u32 list" where
  "mul_outer [] b res = res"
| "mul_outer (ai # as) b res =
     (case mul_inner ai b res 0 of
        [] \<Rightarrow> []
      | r # rs \<Rightarrow> r # mul_outer as b rs)"

definition bi_mul :: "BigInt \<Rightarrow> BigInt \<Rightarrow> BigInt" where
  "bi_mul a b =
     (if sign a = 0 \<or> sign b = 0 then bi_create
      else (let total_len = length (digits a) + length (digits b);
                res = (bi_resize bi_create total_len)\<lparr>digits := replicate total_len 0\<rparr>;
                res1 = res\<lparr>digits := mul_outer (digits a) (digits b) (digits res)\<rparr>
            in bi_normalize (res1\<lparr>sign := (if sign a = sign b then 1 else -1)\<rparr>)))"

definition bi_div :: "BigInt \<Rightarrow> BigInt \<Rightarrow> BigInt option" where
  "bi_div a b =
     (if sign b = 0 then None
      else (case bi_div_mod_abs a b of
              None \<Rightarrow> None
            | Some (q, r) \<Rightarrow>
                Some (bi_normalize (q\<lparr>sign := (if sign a = sign b then 1 else -1)\<rparr>))))"

definition bi_mod :: "BigInt \<Rightarrow> BigInt \<Rightarrow> BigInt option" where
  "bi_mod a b =
     (if sign b = 0 then None
      else (case bi_div_mod_abs a b of
              None \<Rightarrow> None
            | Some (q, r) \<Rightarrow> Some (bi_normalize (r\<lparr>sign := sign a\<rparr>))))"

subsection \<open>Decimal input, power, factorial\<close>

text \<open>
  \<^verbatim>\<open>bi_from_dec\<close>: Horner evaluation over the characters; a character that is not a
  decimal digit is skipped. The empty string gives \<^verbatim>\<open>NULL\<close>.
\<close>

fun from_dec_loop :: "BigInt \<Rightarrow> string \<Rightarrow> BigInt" where
  "from_dec_loop res [] = res"
| "from_dec_loop res (c # p) =
     from_dec_loop
       (if 48 \<le> code_of c \<and> code_of c \<le> 57
        then bi_add_digit_into (bi_mul_digit_into res BASE_DEC) (word_of_nat (code_of c - 48))
        else res) p"

definition bi_from_dec :: "string \<Rightarrow> BigInt option" where
  "bi_from_dec str =
     (if str = [] then None else Some (bi_normalize (from_dec_loop bi_create str)))"

text \<open>
  The squaring loop of \<^verbatim>\<open>bi_pow\<close>; \<open>zero\<close> and \<open>two\<close> are the constants the function
  parses before the loop. \<open>None\<close> stands for a \<^verbatim>\<open>NULL\<close> from \<^verbatim>\<open>bi_mod\<close> or
  \<^verbatim>\<open>bi_div\<close>, and for a loop that does not end.
\<close>

partial_function (option) pow_loop ::
  "BigInt \<Rightarrow> BigInt \<Rightarrow> BigInt \<Rightarrow> BigInt \<Rightarrow> BigInt \<Rightarrow> BigInt option" where
  "pow_loop zero two result current n =
     (if bi_compare_abs n zero > 0
      then (case bi_mod n two of
              None \<Rightarrow> None
            | Some md \<Rightarrow>
                (let is_odd = (sign md \<noteq> 0);
                     result1 = (if is_odd then bi_mul result current else result)
                 in (case bi_div n two of
                       None \<Rightarrow> None
                     | Some new_n \<Rightarrow>
                         if bi_compare_abs new_n zero \<le> 0 then Some result1
                         else pow_loop zero two result1 (bi_mul current current) new_n)))
      else Some result)"

declare pow_loop.simps [code]

definition bi_pow :: "BigInt \<Rightarrow> BigInt \<Rightarrow> BigInt option" where
  "bi_pow base exponent =
     (if sign exponent = 0 then bi_from_dec ''1''
      else if sign base = 0 then bi_from_dec ''0''
      else if sign exponent = -1 then bi_from_dec ''0''
      else (case bi_from_dec ''1'' of
              None \<Rightarrow> None
            | Some one \<Rightarrow>
                if bi_compare_abs base one = 0
                then (if sign base = 1 then bi_from_dec ''1''
                      else (case bi_from_dec ''2'' of
                              None \<Rightarrow> None
                            | Some two \<Rightarrow>
                                (case bi_mod exponent two of
                                   None \<Rightarrow> bi_from_dec ''-1''
                                 | Some md \<Rightarrow>
                                     if sign md = 0 then bi_from_dec ''1''
                                     else bi_from_dec ''-1'')))
                else (case (bi_from_dec ''1'', bi_from_dec ''0'', bi_from_dec ''2'') of
                        (Some result, Some zero, Some two) \<Rightarrow>
                          pow_loop zero two result (bi_copy base) (bi_copy exponent)
                      | _ \<Rightarrow> None)))"

text \<open>
  \<^verbatim>\<open>bi_fact\<close>: the counter \<^verbatim>\<open>i\<close> is a \<^verbatim>\<open>uint32_t\<close>, so \<^verbatim>\<open>i <= n\<close> never fails for
  \<open>n = 2^32 - 1\<close>; \<open>None\<close> stands for the loop that does not end.
\<close>

partial_function (option) fact_loop :: "BigInt \<Rightarrow> u32 \<Rightarrow> u32 \<Rightarrow> BigInt option" where
  "fact_loop res i n =
     (if i \<le> n then fact_loop (bi_mul_digit_into res i) (i + 1) n else Some res)"

declare fact_loop.simps [code]

definition bi_fact :: "u32 \<Rightarrow> BigInt option" where
  "bi_fact n =
     (if n = 0 \<or> n = 1 then bi_from_dec ''1''
      else fact_loop (bi_create\<lparr>digits := (digits bi_create)[0 := 1], sign := 1\<rparr>) 2 n)"

subsection \<open>Hexadecimal and binary input\<close>

text \<open>
  The packing loops of \<^verbatim>\<open>bi_from_hex\<close>. \<open>hex_inner\<close> is
  \<^verbatim>\<open>for (j = 0; j < HEX_WIDTH && i > 0; j++)\<close> with the number of rounds left as its
  counter; \<open>hex_outer\<close> is \<^verbatim>\<open>while (i > 0)\<close>, storing one limb per round.
\<close>

fun hex_inner :: "string \<Rightarrow> nat \<Rightarrow> nat \<Rightarrow> u32 \<Rightarrow> nat \<Rightarrow> (nat \<times> u32) option" where
  "hex_inner str i 0 current_digit shift = Some (i, current_digit)"
| "hex_inner str i (Suc k) current_digit shift =
     (if i > 0
      then (let i' = i - 1; val = hex_value (char_at str i')
            in if val = -1 then None
               else hex_inner str i' k (current_digit OR push_bit shift (word_of_int val))
                      (shift + 4))
      else Some (i, current_digit))"

lemma hex_inner_le: "hex_inner str i k c sh = Some (i', c') \<Longrightarrow> i' \<le> i"
proof (induction k arbitrary: i c sh)
  case 0
  then show ?case by simp
next
  case (Suc k)
  show ?case
  proof (cases "i > 0 \<and> hex_value (char_at str (i - 1)) \<noteq> -1")
    case True
    with Suc.prems have "hex_inner str (i - 1) k
        (c OR push_bit sh (word_of_int (hex_value (char_at str (i - 1))))) (sh + 4) = Some (i', c')"
      by (simp add: Let_def)
    from Suc.IH [OF this] show ?thesis by simp
  next
    case False
    with Suc.prems show ?thesis by (auto simp: Let_def split: if_splits)
  qed
qed

lemma hex_inner_less:
  "hex_inner str i k c sh = Some (i', c') \<Longrightarrow> 0 < k \<Longrightarrow> 0 < i \<Longrightarrow> i' < i"
proof -
  assume a: "hex_inner str i k c sh = Some (i', c')" and kpos: "0 < k" and pos: "0 < i"
  from kpos obtain k' where k: "k = Suc k'" by (cases k) auto
  show ?thesis
  proof (cases "hex_value (char_at str (i - 1)) = -1")
    case True
    with a pos k show ?thesis by (simp add: Let_def)
  next
    case False
    with a pos k have "hex_inner str (i - 1) k'
        (c OR push_bit sh (word_of_int (hex_value (char_at str (i - 1))))) (sh + 4) = Some (i', c')"
      by (simp add: Let_def)
    from hex_inner_le [OF this] pos show ?thesis by simp
  qed
qed

function hex_outer :: "string \<Rightarrow> nat \<Rightarrow> u32 list \<Rightarrow> nat \<Rightarrow> u32 list option" where
  "hex_outer str i ds digit_index =
     (if i > 0
      then (case hex_inner str i HEX_WIDTH 0 0 of
              None \<Rightarrow> None
            | Some (i', current_digit) \<Rightarrow>
                hex_outer str i' (ds[digit_index := current_digit]) (digit_index + 1))
      else Some ds)"
  by pat_completeness auto
termination
  by (relation "measure (\<lambda>(str, i, ds, k). i)") (auto simp: HEX_WIDTH_def dest: hex_inner_less)

declare hex_outer.simps [simp del]

definition bi_from_hex :: "string \<Rightarrow> BigInt option" where
  "bi_from_hex str =
     (let n = length str
      in if str = [] then None
         else if \<exists>c \<in> set str. hex_value c = -1 then None
         else (let required_digits = (n + 7) div HEX_WIDTH;
                   num = (bi_resize bi_create required_digits)
                           \<lparr>digits := replicate required_digits 0, sign := 1\<rparr>
               in case hex_outer str n (digits num) 0 of
                    None \<Rightarrow> None
                  | Some ds \<Rightarrow>
                      (let num1 = num\<lparr>digits := ds, sign := 1\<rparr>;
                           first_val = hex_value (char_at str 0)
                       in if first_val \<ge> 8
                          then (let bits_used0 = (n mod HEX_WIDTH) * 4;
                                    bits_used = (if bits_used0 = 0 then BITS_IN_WORD else bits_used0);
                                    last_idx = length (digits num1) - 1;
                                    ds1 = (if bits_used < BITS_IN_WORD
                                           then (digits num1)
                                                  [last_idx := digits num1 ! last_idx OR push_bit bits_used 0xFFFFFFFF]
                                           else digits num1);
                                    num2 = num1\<lparr>digits := map NOT ds1\<rparr>
                                in Some (bi_normalize ((bi_add_digit_into num2 1)\<lparr>sign := -1\<rparr>)))
                          else Some (bi_normalize num1))))"

text \<open>
  \<^verbatim>\<open>bi_from_bin\<close>. \<open>bin_loop\<close> shifts one bit in per character. \<open>fill_loop\<close> is
  \<^verbatim>\<open>for (bit = n; bit < res->capacity * BITS_IN_WORD; bit++)\<close>, its counter the number of
  rounds left; it sets a bit only in an active limb.
\<close>

fun bin_loop :: "BigInt \<Rightarrow> string \<Rightarrow> BigInt" where
  "bin_loop res [] = res"
| "bin_loop res (c # p) =
     bin_loop
       (let res1 = bi_shift_left_one res
        in if c = CHR ''1''
           then res1\<lparr>digits := (digits res1)[0 := digits res1 ! 0 OR 1], sign := 1\<rparr>
           else res1) p"

fun fill_loop :: "u32 list \<Rightarrow> nat \<Rightarrow> nat \<Rightarrow> u32 list" where
  "fill_loop ds bit_no 0 = ds"
| "fill_loop ds bit_no (Suc k) =
     fill_loop
       (let word_idx = bit_no div BITS_IN_WORD; bit_idx = bit_no mod BITS_IN_WORD
        in if word_idx < length ds
           then ds[word_idx := ds ! word_idx OR push_bit bit_idx 1]
           else ds) (bit_no + 1) k"

definition bi_from_bin :: "string \<Rightarrow> BigInt option" where
  "bi_from_bin str =
     (let p = (if char_at str 0 = CHR ''0'' \<and> (char_at str 1 = CHR ''b'' \<or> char_at str 1 = CHR ''B'')
               then drop 2 str else str)
      in if \<exists>c \<in> set p. c \<noteq> CHR ''0'' \<and> c \<noteq> CHR ''1'' then None
         else (let n = length p
               in if n = 0 then None
                  else (let needed_words = (n + BITS_IN_WORD - 1) div BITS_IN_WORD;
                            res = (bi_resize bi_create needed_words)\<lparr>sign := 1\<rparr>;
                            res1 = bin_loop res p
                        in if char_at p 0 = CHR ''1''
                           then (let ds = fill_loop (digits res1) n (capacity res1 * BITS_IN_WORD - n);
                                     res2 = res1\<lparr>digits := map NOT ds\<rparr>
                                 in Some (bi_normalize ((bi_add_digit_into res2 1)\<lparr>sign := -1\<rparr>)))
                           else Some (bi_normalize res1))))"

text \<open>
  \<^verbatim>\<open>bi_from_str\<close>: leading white space, an optional sign, white space again, then the
  prefix chooses the parser. The sign is applied to a non-zero value only.
\<close>

definition bi_from_str :: "string \<Rightarrow> BigInt option" where
  "bi_from_str str =
     (let p0 = dropWhile isspace str;
          sgn0 = (if char_at p0 0 = CHR ''-'' then -1 else 1);
          p1 = (if char_at p0 0 = CHR ''-'' \<or> char_at p0 0 = CHR ''+'' then drop 1 p0 else p0);
          p = dropWhile isspace p1;
          num = (if char_at p 0 = CHR ''0'' \<and> (char_at p 1 = CHR ''b'' \<or> char_at p 1 = CHR ''B'')
                 then bi_from_bin (drop 2 p)
                 else if char_at p 0 = CHR ''0'' \<and> (char_at p 1 = CHR ''x'' \<or> char_at p 1 = CHR ''X'')
                 then bi_from_hex (drop 2 p)
                 else bi_from_dec p)
      in case num of
           None \<Rightarrow> None
         | Some num \<Rightarrow> Some (if sign num \<noteq> 0 then num\<lparr>sign := sign num * sgn0\<rparr> else num))"

subsection \<open>Output\<close>

text \<open>
  \<^verbatim>\<open>bi_to_dec\<close>: the loop divides by ten until the sign of the copy is 0, writing the
  digits in reverse; \<open>None\<close> stands for a loop that does not end.
\<close>

partial_function (option) to_dec_loop :: "BigInt \<Rightarrow> string \<Rightarrow> string option" where
  "to_dec_loop copy buffer =
     (if sign copy \<noteq> 0
      then (case bi_div10_into copy of
              (copy', remainder) \<Rightarrow>
                to_dec_loop copy' (buffer @ [char_of (unat remainder + code_of CHR ''0'')]))
      else Some buffer)"

declare to_dec_loop.simps [code]

definition bi_to_dec :: "BigInt \<Rightarrow> string option" where
  "bi_to_dec n =
     (if sign n = 0 then Some ''0''
      else (case to_dec_loop ((bi_copy n)\<lparr>sign := 1\<rparr>) [] of
              None \<Rightarrow> None
            | Some buffer \<Rightarrow> Some ((if sign n = -1 then ''-'' else []) @ rev buffer)))"

text \<open>\<^verbatim>\<open>sprintf("%08x", w)\<close>: eight lower-case hexadecimal digits, the top nibble first.\<close>

definition hex_char :: "u32 \<Rightarrow> char" where
  "hex_char v = ''0123456789abcdef'' ! unat v"

definition hex8 :: "u32 \<Rightarrow> string" where
  "hex8 w = map (\<lambda>k. hex_char (drop_bit (4 * k) w AND 15)) [7, 6, 5, 4, 3, 2, 1, 0]"

definition is_sign_nibble :: "char \<Rightarrow> bool" where
  "is_sign_nibble c =
     ((code_of CHR ''8'' \<le> code_of c \<and> code_of c \<le> code_of CHR ''9'')
      \<or> (code_of CHR ''a'' \<le> code_of c \<and> code_of c \<le> code_of CHR ''f'')
      \<or> (code_of CHR ''A'' \<le> code_of c \<and> code_of c \<le> code_of CHR ''F''))"

text \<open>
  The pointer \<^verbatim>\<open>start\<close> into the raw buffer is the suffix it points to.
  \<open>skip_zeros\<close>: \<^verbatim>\<open>while (*start == '0' && *(start + 1) != '\0') start++\<close>.
  \<open>skip_f\<close>: the loop of the negative branch.
\<close>

fun skip_zeros :: "string \<Rightarrow> string" where
  "skip_zeros (c # d # s) = (if c = CHR ''0'' then skip_zeros (d # s) else c # d # s)"
| "skip_zeros s = s"

fun skip_f :: "string \<Rightarrow> string" where
  "skip_f (c # next # s) =
     (if c = CHR ''f''
      then (if is_sign_nibble next then skip_f (next # s) else c # next # s)
      else c # next # s)"
| "skip_f s = s"

definition bi_to_hex :: "BigInt \<Rightarrow> string" where
  "bi_to_hex n =
     (if sign n = 0 then ''0x0''
      else (let working0 = bi_copy n;
                working = (if sign n = -1
                           then bi_add_digit_into (working0\<lparr>digits := map NOT (digits working0)\<rparr>) 1
                           else working0);
                raw_buffer = concat (map hex8 (rev (digits working)));
                start = (if sign n = 1
                         then (let start1 = skip_zeros raw_buffer;
                                   needs_leading_zero = is_sign_nibble (char_at start1 0)
                               in if needs_leading_zero \<and> length start1 \<noteq> length raw_buffer
                                  then drop (length raw_buffer - length start1 - 1) raw_buffer
                                  else start1)
                         else skip_f raw_buffer)
            in ''0x'' @ start))"

text \<open>\<^verbatim>\<open>bi_to_bin\<close>: a sign character, the bits from the top down, then the leading run is cut.\<close>

fun skip_double :: "char \<Rightarrow> string \<Rightarrow> string" where
  "skip_double x (c # d # s) = (if c = x \<and> d = x then skip_double x (d # s) else c # d # s)"
| "skip_double x s = s"

definition bi_to_bin :: "BigInt \<Rightarrow> string" where
  "bi_to_bin n =
     (if sign n = 0 then ''0b0''
      else (let working0 = bi_copy n;
                working = (if sign n = -1
                           then (bi_add_digit_into (working0\<lparr>digits := map NOT (digits working0)\<rparr>) 1)
                                  \<lparr>sign := 1\<rparr>
                           else working0);
                bit_len = bi_bit_length working;
                buffer = (if sign n = 1 then CHR ''0'' else CHR ''1'')
                         # map (\<lambda>i. if bi_get_bit working i \<noteq> 0 then CHR ''1'' else CHR ''0'')
                             (rev [0 ..< bit_len]);
                start = (if sign n = 1 then skip_double CHR ''0'' buffer
                         else skip_double CHR ''1'' buffer)
            in ''0b'' @ start))"

section \<open>The expression evaluator\<close>

subsection \<open>Syntax validator\<close>

definition is_operator :: "char \<Rightarrow> bool" where
  "is_operator c =
     (c = CHR ''+'' \<or> c = CHR ''-'' \<or> c = CHR ''*'' \<or> c = CHR ''/'' \<or> c = CHR ''%''
      \<or> c = CHR ''^'' \<or> c = CHR ''!'' \<or> c = CHR ''('' \<or> c = CHR '')'')"

text \<open>\<open>scan_while P s i\<close>: the loop \<^verbatim>\<open>while (P(input[i])) i++\<close>, which stops at the terminator.\<close>

function scan_while :: "(char \<Rightarrow> bool) \<Rightarrow> string \<Rightarrow> nat \<Rightarrow> nat" where
  "scan_while P s i = (if i < length s \<and> P (s ! i) then scan_while P s (Suc i) else i)"
  by pat_completeness auto
termination
  by (relation "measure (\<lambda>(P, s, i). length s - i)") auto

declare scan_while.simps [simp del]

text \<open>
  The look-behind \<^verbatim>\<open>j = i - 1; while (j >= 0 && isspace(input[j])) j--\<close>: the result is
  \<open>None\<close> for \<^verbatim>\<open>j < 0\<close>, otherwise the index found. The argument is \<open>j + 1\<close>.
\<close>

fun scan_back :: "string \<Rightarrow> nat \<Rightarrow> nat option" where
  "scan_back s 0 = None"
| "scan_back s (Suc j) = (if isspace (char_at s j) then scan_back s j else Some j)"

text \<open>
  The flag \<^verbatim>\<open>is_unary\<close> that the validator computes at a \<^verbatim>\<open>'+'\<close> or \<^verbatim>\<open>'-'\<close> at
  index \<open>i\<close>.
\<close>

definition sign_is_unary :: "string \<Rightarrow> nat \<Rightarrow> bool" where
  "sign_is_unary input i =
     (case scan_back input i of
        None \<Rightarrow> True
      | Some j \<Rightarrow>
          if char_at input i = CHR ''-''
          then \<not> (char_at input j \<noteq> CHR ''('' \<and> \<not> is_operator (char_at input j))
               \<and> \<not> (char_at input j = CHR ''!'')
          else \<not> (char_at input j \<noteq> CHR ''(''))"

lemma scan_while_ge: "i \<le> scan_while P s i"
proof (induction P s i rule: scan_while.induct)
  case (1 P s i)
  show ?case
  proof (cases "i < length s \<and> P (s ! i)")
    case True
    with "1" have "Suc i \<le> scan_while P s (Suc i)" by simp
    moreover from True have "scan_while P s i = scan_while P s (Suc i)"
      by (subst scan_while.simps) simp
    ultimately show ?thesis by simp
  next
    case False
    then have "scan_while P s i = i" by (subst scan_while.simps) auto
    then show ?thesis by simp
  qed
qed

lemma scan_while_gt: "i < length s \<Longrightarrow> P (s ! i) \<Longrightarrow> i < scan_while P s i"
proof -
  assume a: "i < length s" "P (s ! i)"
  then have "scan_while P s i = scan_while P s (Suc i)"
    by (subst scan_while.simps) simp
  moreover have "Suc i \<le> scan_while P s (Suc i)" by (rule scan_while_ge)
  ultimately show ?thesis by simp
qed

text \<open>
  \<^verbatim>\<open>validate_expression_syntax\<close>: the state of the loop is the index and the three
  variables \<^verbatim>\<open>expect_operand\<close>, \<^verbatim>\<open>last_was_operator\<close>, \<^verbatim>\<open>paren_depth\<close>; the checks after
  the loop are its last branch.
\<close>

function validate_loop :: "string \<Rightarrow> nat \<Rightarrow> bool \<Rightarrow> bool \<Rightarrow> int \<Rightarrow> bool" where
  "validate_loop input i expect_operand last_was_operator paren_depth =
     (if i < length input
      then (if isspace (input ! i)
            then validate_loop input (i + 1) expect_operand last_was_operator paren_depth
            else if isdigit (input ! i)
            then (if \<not> expect_operand then False
                  else if input ! i = CHR ''0''
                          \<and> (char_at input (i + 1) = CHR ''x'' \<or> char_at input (i + 1) = CHR ''X'')
                  then (if \<not> isxdigit (char_at input (i + 2)) then False
                        else validate_loop input (scan_while isxdigit input (i + 2))
                               False False paren_depth)
                  else if input ! i = CHR ''0''
                          \<and> (char_at input (i + 1) = CHR ''b'' \<or> char_at input (i + 1) = CHR ''B'')
                  then (if char_at input (i + 2) \<noteq> CHR ''0'' \<and> char_at input (i + 2) \<noteq> CHR ''1''
                        then False
                        else validate_loop input
                               (scan_while (\<lambda>c. c = CHR ''0'' \<or> c = CHR ''1'') input (i + 2))
                               False False paren_depth)
                  else validate_loop input (scan_while isdigit input i) False False paren_depth)
            else if is_operator (input ! i)
            then (if input ! i = CHR ''(''
                  then (if \<not> expect_operand then False
                        else validate_loop input (i + 1) True True (paren_depth + 1))
                  else if input ! i = CHR '')''
                  then (if expect_operand \<or> paren_depth \<le> 0 then False
                        else validate_loop input (i + 1) False False (paren_depth - 1))
                  else if input ! i = CHR ''!''
                  then (if expect_operand then False
                        else validate_loop input (i + 1) False False paren_depth)
                  else if (input ! i = CHR ''-'' \<or> input ! i = CHR ''+'') \<and> sign_is_unary input i
                  then validate_loop input (i + 1) expect_operand True paren_depth
                  else if last_was_operator \<and> input ! i \<noteq> CHR ''!'' then False
                  else validate_loop input (i + 1) True True paren_depth)
            else False)
      else (if paren_depth \<noteq> 0 then False
            else if expect_operand then False
            else (case scan_back input (length input) of
                    None \<Rightarrow> True
                  | Some j \<Rightarrow> \<not> (input ! j \<in> set ''+-*/%^''))))"
  by pat_completeness auto
termination
proof (relation "measure (\<lambda>(input, i, e, l, d). length input - i)", goal_cases)
  case 1
  show ?case by simp
next
  case (2 input i e l d)
  then show ?case by simp
next
  case (3 input i e l d)
  have "i + 2 \<le> scan_while isxdigit input (i + 2)" by (rule scan_while_ge)
  with 3 show ?case by simp
next
  case (4 input i e l d)
  have "i + 2 \<le> scan_while (\<lambda>c. c = CHR ''0'' \<or> c = CHR ''1'') input (i + 2)"
    by (rule scan_while_ge)
  with 4 show ?case by simp
next
  case (5 input i e l d)
  then have "i < scan_while isdigit input i" by (simp add: scan_while_gt)
  with 5 show ?case by simp
qed simp_all

declare validate_loop.simps [simp del]

definition validate_expression_syntax :: "string \<Rightarrow> bool" where
  "validate_expression_syntax input = validate_loop input 0 True False 0"

subsection \<open>Shunting-yard evaluation\<close>

definition get_priority :: "char \<Rightarrow> int" where
  "get_priority op =
     (if op = CHR ''+'' \<or> op = CHR ''-'' then 1
      else if op = CHR ''*'' \<or> op = CHR ''/'' \<or> op = CHR ''%'' then 2
      else if op = CHR ''^'' then 3
      else if op = CHR ''!'' then 4
      else if op = CHR ''m'' then 3
      else 0)"

text \<open>
  Every \<^verbatim>\<open>return NULL\<close> of the evaluator is tagged with the reason of the failure. The
  flag \<^verbatim>\<open>error_already_printed\<close> and the lines written to the standard output are
  passed along as state. \<open>DoesNotReturn\<close> is no return at all: it marks a call of
  \<^verbatim>\<open>bi_fact\<close> or \<^verbatim>\<open>bi_pow\<close> whose loop does not end, so that the evaluator does not
  return either.
\<close>

datatype eval_error =
    SyntaxRejected
  | DivisionByZero
  | NegativeFactorial
  | FactorialTooLarge
  | StackUnderflow
  | MisplacedOperator
  | BadLiteral
  | OperationFailed
  | NoResult
  | DoesNotReturn

type_synonym eval_state = "bool \<times> string list"

text \<open>
  The \<^verbatim>\<open>switch\<close> of \<^verbatim>\<open>apply_operation\<close>; any other operator leaves \<^verbatim>\<open>result\<close> null.
  The \<open>None\<close> of \<^verbatim>\<open>bi_div\<close> and \<^verbatim>\<open>bi_mod\<close> is their \<^verbatim>\<open>NULL\<close>. The \<open>None\<close> of
  \<^verbatim>\<open>bi_pow\<close> is its loop that does not end: the \<^verbatim>\<open>NULL\<close> returns inside \<^verbatim>\<open>bi_pow\<close>
  need an empty literal or a division by the constant two to fail, and the latter only
  fails for a zero divisor.
\<close>

definition binary_result :: "char \<Rightarrow> BigInt \<Rightarrow> BigInt \<Rightarrow> eval_error + BigInt" where
  "binary_result op left right =
     (if op = CHR ''+'' then Inr (bi_add left right)
      else if op = CHR ''-'' then Inr (bi_sub left right)
      else if op = CHR ''*'' then Inr (bi_mul left right)
      else if op = CHR ''/''
      then (case bi_div left right of None \<Rightarrow> Inl OperationFailed | Some v \<Rightarrow> Inr v)
      else if op = CHR ''%''
      then (case bi_mod left right of None \<Rightarrow> Inl OperationFailed | Some v \<Rightarrow> Inr v)
      else if op = CHR ''^''
      then (case bi_pow left right of None \<Rightarrow> Inl DoesNotReturn | Some v \<Rightarrow> Inr v)
      else Inl OperationFailed)"

definition apply_operation ::
  "BigInt list \<Rightarrow> char \<Rightarrow> eval_state \<Rightarrow> (eval_error + BigInt list) \<times> eval_state" where
  "apply_operation num_stack op st =
     (case num_stack of
        [] \<Rightarrow> (Inl StackUnderflow, st)
      | right # rest \<Rightarrow>
          if op = CHR ''!''
          then (if sign right = -1
                then (Inl NegativeFactorial,
                      (True, snd st @ [''Input of factorial must not be negative!'']))
                else if length (digits right) > 1 then (Inl FactorialTooLarge, st)
                else (case bi_fact (digits right ! 0) of
                        None \<Rightarrow> (Inl DoesNotReturn, st)
                      | Some result \<Rightarrow> (Inr (result # rest), st)))
          else if op = CHR ''m'' then (Inr (bi_negate right # rest), st)
          else (case rest of
                  [] \<Rightarrow> (Inl StackUnderflow, st)
                | left # rest' \<Rightarrow>
                    if (op = CHR ''/'' \<or> op = CHR ''%'') \<and> sign right = 0
                    then (Inl DivisionByZero, (True, snd st @ [''Division by zero!'']))
                    else (case binary_result op left right of
                            Inl e \<Rightarrow> (Inl e, st)
                          | Inr result \<Rightarrow> (Inr (result # rest'), st))))"

text \<open>The three draining loops; the operator stack is a list with its top first.\<close>

fun drain_paren ::
  "BigInt list \<Rightarrow> char list \<Rightarrow> eval_state \<Rightarrow> (eval_error + BigInt list \<times> char list) \<times> eval_state" where
  "drain_paren ns [] st = (Inr (ns, []), st)"
| "drain_paren ns (t # ops) st =
     (if t \<noteq> CHR ''(''
      then (case apply_operation ns t st of
              (Inl e, st') \<Rightarrow> (Inl e, st')
            | (Inr ns', st') \<Rightarrow> drain_paren ns' ops st')
      else (Inr (ns, t # ops), st))"

fun drain_ops ::
  "char \<Rightarrow> BigInt list \<Rightarrow> char list \<Rightarrow> eval_state
     \<Rightarrow> (eval_error + BigInt list \<times> char list) \<times> eval_state" where
  "drain_ops curr_op ns [] st = (Inr (ns, []), st)"
| "drain_ops curr_op ns (t # ops) st =
     (if get_priority t \<ge> get_priority curr_op
      then (if curr_op = CHR ''m'' then (Inr (ns, t # ops), st)
            else if curr_op = CHR ''^'' \<and> t = CHR ''^'' then (Inr (ns, t # ops), st)
            else if curr_op = CHR ''^'' \<and> get_priority t = get_priority curr_op
            then (Inr (ns, t # ops), st)
            else (case apply_operation ns t st of
                    (Inl e, st') \<Rightarrow> (Inl e, st')
                  | (Inr ns', st') \<Rightarrow> drain_ops curr_op ns' ops st'))
      else (Inr (ns, t # ops), st))"

fun drain_all ::
  "BigInt list \<Rightarrow> char list \<Rightarrow> eval_state \<Rightarrow> (eval_error + BigInt list) \<times> eval_state" where
  "drain_all ns [] st = (Inr ns, st)"
| "drain_all ns (t # ops) st =
     (case apply_operation ns t st of
        (Inl e, st') \<Rightarrow> (Inl e, st')
      | (Inr ns', st') \<Rightarrow> drain_all ns' ops st')"

definition is_number_char :: "char \<Rightarrow> bool" where
  "is_number_char c =
     (isxdigit c \<or> c = CHR ''x'' \<or> c = CHR ''X'' \<or> c = CHR ''b'' \<or> c = CHR ''B'')"

text \<open>
  The main loop of \<^verbatim>\<open>eval_expression\<close>. A literal that \<^verbatim>\<open>bi_from_str\<close> cannot parse
  would be pushed as a null pointer; the model stops there with \<open>BadLiteral\<close>.
\<close>

function eval_loop ::
  "string \<Rightarrow> nat \<Rightarrow> bool \<Rightarrow> BigInt list \<Rightarrow> char list \<Rightarrow> eval_state
     \<Rightarrow> (eval_error + BigInt) \<times> eval_state" where
  "eval_loop input i can_be_sign ns ops st =
     (if i < length input
      then (if isspace (input ! i) then eval_loop input (i + 1) can_be_sign ns ops st
            else if isdigit (input ! i)
            then (case bi_from_str (take (scan_while is_number_char input i - i) (drop i input)) of
                    None \<Rightarrow> (Inl BadLiteral, st)
                  | Some v \<Rightarrow>
                      eval_loop input (scan_while is_number_char input i) False (v # ns) ops st)
            else if input ! i = CHR ''(''
            then eval_loop input (i + 1) True ns (input ! i # ops) st
            else if input ! i = CHR '')''
            then (case drain_paren ns ops st of
                    (Inl e, st') \<Rightarrow> (Inl e, st')
                  | (Inr (ns', ops'), st') \<Rightarrow> eval_loop input (i + 1) False ns' (drop 1 ops') st')
            else if input ! i = CHR ''+'' \<or> input ! i = CHR ''-'' \<or> input ! i = CHR ''*''
                    \<or> input ! i = CHR ''/'' \<or> input ! i = CHR ''%'' \<or> input ! i = CHR ''^''
                    \<or> input ! i = CHR ''!''
            then (if can_be_sign \<and> input ! i = CHR ''+''
                  then eval_loop input (i + 1) can_be_sign ns ops st
                  else if can_be_sign \<and> input ! i \<noteq> CHR ''-'' then (Inl MisplacedOperator, st)
                  else (case drain_ops (if can_be_sign then CHR ''m'' else input ! i) ns ops st of
                          (Inl e, st') \<Rightarrow> (Inl e, st')
                        | (Inr (ns', ops'), st') \<Rightarrow>
                            eval_loop input (i + 1)
                              ((if can_be_sign then CHR ''m'' else input ! i) \<noteq> CHR ''!'')
                              ns' ((if can_be_sign then CHR ''m'' else input ! i) # ops') st'))
            else eval_loop input (i + 1) can_be_sign ns ops st)
      else (case drain_all ns ops st of
              (Inl e, st') \<Rightarrow> (Inl e, st')
            | (Inr ns', st') \<Rightarrow>
                (case ns' of [] \<Rightarrow> (Inl NoResult, st') | v # rest \<Rightarrow> (Inr v, st'))))"
  by pat_completeness auto
termination
proof (relation "measure (\<lambda>(input, i, c, ns, ops, st). length input - i)", goal_cases)
  case 1
  show ?case by simp
next
  case (3 input i c ns ops st v)
  then have "is_number_char (input ! i)" by (simp add: is_number_char_def isxdigit_def)
  with 3 have "i < scan_while is_number_char input i" by (simp add: scan_while_gt)
  with 3 show ?case by simp
qed simp_all

declare eval_loop.simps [simp del]

definition eval_expression :: "string \<Rightarrow> eval_state \<Rightarrow> (eval_error + BigInt) \<times> eval_state" where
  "eval_expression input st =
     (if \<not> validate_expression_syntax input then (Inl SyntaxRejected, st)
      else eval_loop input 0 True [] [] st)"

subsection \<open>The shell's line handler\<close>

definition BASE_HEX :: int where "BASE_HEX = 16"
definition BASE_BIN :: int where "BASE_BIN = 2"
definition BASE_DECIMAL :: int where "BASE_DECIMAL = 10"
definition MAX_CMD_NAME :: nat where "MAX_CMD_NAME = 256"

text \<open>
  \<^verbatim>\<open>process_and_print\<close>: the global \<^verbatim>\<open>output_num_system\<close> is passed in and returned, and
  the lines printed are returned with it. \<open>None\<close> is a call that does not return: the
  evaluator does not, or the loop of \<^verbatim>\<open>bi_to_dec\<close> does not end.
\<close>

definition process_and_print :: "int \<Rightarrow> string \<Rightarrow> (int \<times> string list) option" where
  "process_and_print output_num_system row =
     (if length row < 1 then Some (output_num_system, [])
      else (let p = dropWhile isspace row
            in if p = ''quit'' then Some (output_num_system, [''quit''])
               else if take 3 p = ''out''
               then Some (output_num_system,
                     [if output_num_system = BASE_HEX then ''hex''
                      else if output_num_system = BASE_BIN then ''bin'' else ''dec''])
               else if take 3 p = ''hex'' then Some (BASE_HEX, [''hex''])
               else if take 3 p = ''bin'' then Some (BASE_BIN, [''bin''])
               else if take 3 p = ''dec'' then Some (BASE_DECIMAL, [''dec''])
               else if isalpha (char_at p 0) \<and> \<not> (\<exists>c \<in> set p. c \<in> set ''+-*/%^()!'')
               then Some (output_num_system,
                     [''Invalid command '' @ [CHR 0x22]
                      @ rev (dropWhile isspace (rev (take (MAX_CMD_NAME - 1) p)))
                      @ [CHR 0x22] @ ''!''])
               else (case eval_expression p (False, []) of
                       (Inr result, (error_already_printed, out)) \<Rightarrow>
                         (let rendered = (if output_num_system = BASE_HEX then Some (bi_to_hex result)
                                      else if output_num_system = BASE_BIN then Some (bi_to_bin result)
                                      else bi_to_dec result)
                          in (case rendered of
                                None \<Rightarrow> None
                              | Some t \<Rightarrow> Some (output_num_system, out @ [t])))
                     | (Inl e, (error_already_printed, out)) \<Rightarrow>
                         if e = DoesNotReturn then None
                         else Some (output_num_system,
                                    out @ (if \<not> error_already_printed then [''Syntax error!''] else [])))))"

section \<open>Arithmetic of the kernel\<close>

subsection \<open>Words as numbers\<close>

lemma unat_u32_bound: "unat (x :: u32) < 2 ^ 32"
  using unsigned_less [of x, where ?'a = nat] by simp

lemma unat_u64_bound: "unat (x :: u64) < 2 ^ 64"
  using unsigned_less [of x, where ?'a = nat] by simp

lemma unat_ucast_up: "unat (ucast (x :: u32) :: u64) = unat x"
proof -
  have "unat x < 2 ^ 64" using unat_u32_bound [of x] by simp
  then show ?thesis by (simp add: unsigned_ucast_eq take_bit_eq_mod)
qed

lemma unat_ucast_down: "unat (ucast (x :: u64) :: u32) = unat x mod 2 ^ 32"
  by (simp add: unsigned_ucast_eq take_bit_eq_mod)

lemma unat_drop_bit_32: "unat (drop_bit 32 (x :: u64)) = unat x div 2 ^ 32"
  by (simp add: unat_drop_bit_eq drop_bit_eq_div unat_div)

lemma split_u64: "unat (ucast (x :: u64) :: u32) + 2 ^ 32 * unat (drop_bit 32 x) = unat x"
  by (simp add: unat_ucast_down unat_drop_bit_32)

lemma unat_add3:
  "unat (c :: u64) < 2 ^ 32 \<Longrightarrow>
   unat (ucast (r :: u32) + ucast (b :: u32) + c :: u64) = unat r + unat b + unat c"
proof -
  assume c: "unat c < 2 ^ 32"
  have r: "unat r < 2 ^ 32" and b: "unat b < 2 ^ 32" by (rule unat_u32_bound)+
  have "unat (ucast r + ucast b + c :: u64) = (unat r + unat b + unat c) mod 2 ^ 64"
    by (simp add: unat_word_ariths unat_ucast_up mod_simps)
  also have "\<dots> = unat r + unat b + unat c" using r b c by simp
  finally show ?thesis .
qed

lemma unat_mul_add:
  "unat (c :: u64) < 2 ^ 32 \<Longrightarrow>
   unat (ucast (a :: u32) * ucast (b :: u32) + ucast (r :: u32) + c :: u64)
     = unat a * unat b + unat r + unat c"
proof -
  assume c: "unat c < 2 ^ 32"
  have a: "unat a \<le> 2 ^ 32 - 1" and b: "unat b \<le> 2 ^ 32 - 1" and r: "unat r \<le> 2 ^ 32 - 1"
    using unat_u32_bound [of a] unat_u32_bound [of b] unat_u32_bound [of r] by simp_all
  have "unat a * unat b \<le> (2 ^ 32 - 1) * (2 ^ 32 - 1)" using a b by (rule mult_le_mono)
  then have bound: "unat a * unat b + unat r + unat c < 2 ^ 64" using r c by simp
  have "unat (ucast a * ucast b + ucast r + c :: u64) = (unat a * unat b + unat r + unat c) mod 2 ^ 64"
    by (simp add: unat_word_ariths unat_ucast_up mod_simps)
  also have "\<dots> = unat a * unat b + unat r + unat c" using bound by simp
  finally show ?thesis .
qed

subsection \<open>The magnitude of a limb list\<close>

fun mag :: "u32 list \<Rightarrow> nat" where
  "mag [] = 0"
| "mag (d # ds) = unat d + 2 ^ 32 * mag ds"

definition bi_val :: "BigInt \<Rightarrow> int" where
  "bi_val n = sign n * int (mag (digits n))"

definition normalized :: "BigInt \<Rightarrow> bool" where
  "normalized n =
     ((sign n = 0 \<and> length (digits n) = 1 \<and> digits n ! 0 = 0)
      \<or> ((sign n = - 1 \<or> sign n = 1) \<and> length (digits n) \<ge> 1
          \<and> digits n ! (length (digits n) - 1) \<noteq> 0))"

lemma mag_append: "mag (xs @ ys) = mag xs + 2 ^ (32 * length xs) * mag ys"
  by (induction xs) (simp_all add: algebra_simps power_add)

lemma mag_bound: "mag xs < 2 ^ (32 * length xs)"
proof (induction xs)
  case Nil
  then show ?case by simp
next
  case (Cons d ds)
  have "unat d < 2 ^ 32" by (rule unat_u32_bound)
  moreover from Cons have "mag ds + 1 \<le> 2 ^ (32 * length ds)" by simp
  then have "2 ^ 32 * (mag ds + 1) \<le> (2 :: nat) ^ 32 * 2 ^ (32 * length ds)"
    by (rule mult_le_mono2)
  ultimately show ?case by (simp add: power_add)
qed

lemma mag_replicate_zero [simp]: "mag (replicate n 0) = 0"
  by (induction n) simp_all

lemma mag_snoc: "mag (xs @ [d]) = mag xs + 2 ^ (32 * length xs) * unat d"
  by (simp add: mag_append)

lemma mag_take_Suc:
  "i < length xs \<Longrightarrow> mag (take (Suc i) xs) = mag (take i xs) + 2 ^ (32 * i) * unat (xs ! i)"
  by (simp add: take_Suc_conv_app_nth mag_snoc)

lemma mag_eq_zero_iff: "mag xs = 0 \<longleftrightarrow> (\<forall>d \<in> set xs. d = 0)"
  by (induction xs) (auto simp: unat_eq_0)

lemma mag_last_nonzero:
  "xs \<noteq> [] \<Longrightarrow> xs ! (length xs - 1) \<noteq> 0 \<Longrightarrow> 2 ^ (32 * (length xs - 1)) \<le> mag xs"
proof -
  assume ne: "xs \<noteq> []" and nz: "xs ! (length xs - 1) \<noteq> 0"
  from ne have xs: "xs = butlast xs @ [xs ! (length xs - 1)]"
    by (metis append_butlast_last_id last_conv_nth)
  from nz have "1 \<le> unat (xs ! (length xs - 1))"
    by (metis One_nat_def Suc_leI unat_eq_0 neq0_conv)
  then have "2 ^ (32 * (length xs - 1)) * 1 \<le> 2 ^ (32 * (length xs - 1)) * unat (xs ! (length xs - 1))"
    by (rule mult_le_mono2)
  moreover have "mag xs = mag (butlast xs) + 2 ^ (32 * (length xs - 1)) * unat (xs ! (length xs - 1))"
    by (subst xs) (simp add: mag_snoc)
  ultimately show ?thesis by linarith
qed

text \<open>Two limb lists of one length with one magnitude are equal.\<close>

lemma mag_inject: "length xs = length ys \<Longrightarrow> mag xs = mag ys \<Longrightarrow> xs = ys"
proof (induction xs arbitrary: ys)
  case Nil
  then show ?case by simp
next
  case (Cons d ds)
  then obtain e es where ys: "ys = e # es" by (cases ys) auto
  with Cons.prems have eq: "unat d + 2 ^ 32 * mag ds = unat e + 2 ^ 32 * mag es" by simp
  have d: "unat d < 2 ^ 32" and e: "unat e < 2 ^ 32" by (rule unat_u32_bound)+
  from eq have "(unat d + 2 ^ 32 * mag ds) mod 2 ^ 32 = (unat e + 2 ^ 32 * mag es) mod 2 ^ 32"
    by simp
  with d e have de: "unat d = unat e" by simp
  with eq have "mag ds = mag es" by simp
  with Cons.IH [of es] Cons.prems ys have "ds = es" by simp
  with de ys show ?case by (simp add: word_unat_eq_iff)
qed

subsection \<open>Normalisation\<close>

definition trimmed :: "u32 list \<Rightarrow> bool" where
  "trimmed ds = (ds \<noteq> [] \<and> (length ds = 1 \<or> ds ! (length ds - 1) \<noteq> 0))"

lemma normalize_loop_fixed: "\<not> (length ds > 1 \<and> ds ! (length ds - 1) = 0) \<Longrightarrow> normalize_loop ds = ds"
  by (subst normalize_loop.simps) auto

lemma normalize_loop_step:
  "length ds > 1 \<Longrightarrow> ds ! (length ds - 1) = 0 \<Longrightarrow>
     normalize_loop ds = normalize_loop (take (length ds - 1) ds)"
  by (subst normalize_loop.simps) simp

lemma normalize_loop_props:
  "mag (normalize_loop ds) = mag ds \<and> (ds \<noteq> [] \<longrightarrow> trimmed (normalize_loop ds))
   \<and> length (normalize_loop ds) \<le> length ds"
proof (induction ds rule: normalize_loop.induct)
  case (1 ds)
  show ?case
  proof (cases "length ds > 1 \<and> ds ! (length ds - 1) = 0")
    case True
    then have ne: "ds \<noteq> []" by auto
    with True have ds: "ds = take (length ds - 1) ds @ [0]"
      by (metis append_butlast_last_id butlast_conv_take last_conv_nth)
    have "mag ds = mag (take (length ds - 1) ds)"
      by (subst ds) (simp add: mag_snoc)
    moreover from True have "take (length ds - 1) ds \<noteq> []" by auto
    moreover have "length (take (length ds - 1) ds) \<le> length ds" by simp
    ultimately show ?thesis using "1.IH" [OF True] True
      by (auto simp: normalize_loop_step)
  next
    case False
    have "ds \<noteq> [] \<Longrightarrow> length ds = 1 \<or> 1 < length ds" by (cases ds) auto
    with False show ?thesis by (auto simp: normalize_loop_fixed trimmed_def)
  qed
qed

lemma mag_normalize_loop [simp]: "mag (normalize_loop ds) = mag ds"
  by (simp add: normalize_loop_props)

lemma trimmed_normalize_loop: "ds \<noteq> [] \<Longrightarrow> trimmed (normalize_loop ds)"
  by (simp add: normalize_loop_props)

lemma normalize_loop_trimmed: "trimmed ds \<Longrightarrow> normalize_loop ds = ds"
  by (rule normalize_loop_fixed) (auto simp: trimmed_def)

lemma trimmed_zero: "trimmed ds \<Longrightarrow> mag ds = 0 \<Longrightarrow> ds = [0]"
proof -
  assume t: "trimmed ds" and z: "mag ds = 0"
  then have all: "\<forall>d \<in> set ds. d = 0" by (simp add: mag_eq_zero_iff)
  from t have ne: "ds \<noteq> []" by (simp add: trimmed_def)
  then have "ds ! (length ds - 1) \<in> set ds" by simp
  with all have "ds ! (length ds - 1) = 0" by blast
  with t have "length ds = 1" by (auto simp: trimmed_def)
  then obtain d where "ds = [d]" by (cases ds) auto
  with all show ?thesis by simp
qed

text \<open>A trimmed limb list is determined by its magnitude.\<close>

lemma trimmed_length_le:
  assumes "trimmed xs" "trimmed ys" "mag xs \<le> mag ys"
  shows "length xs \<le> length ys"
proof (rule ccontr)
  assume "\<not> length xs \<le> length ys"
  then have lt: "length ys < length xs" by simp
  with assms(2) have "1 < length xs" by (cases ys) (auto simp: trimmed_def)
  with assms(1) have nz: "xs \<noteq> []" "xs ! (length xs - 1) \<noteq> 0" by (auto simp: trimmed_def)
  then have "2 ^ (32 * (length xs - 1)) \<le> mag xs" by (rule mag_last_nonzero)
  moreover have "mag ys < 2 ^ (32 * length ys)" by (rule mag_bound)
  moreover from lt have "(2 :: nat) ^ (32 * length ys) \<le> 2 ^ (32 * (length xs - 1))"
    by (intro power_increasing) auto
  ultimately show False using assms(3) by linarith
qed

lemma trimmed_unique: "trimmed xs \<Longrightarrow> trimmed ys \<Longrightarrow> mag xs = mag ys \<Longrightarrow> xs = ys"
  by (intro mag_inject antisym trimmed_length_le) simp_all

lemma digits_bi_normalize [simp]: "digits (bi_normalize n) = normalize_loop (digits n)"
  by (simp add: bi_normalize_def Let_def)

lemma capacity_bi_normalize [simp]: "capacity (bi_normalize n) = capacity n"
  by (simp add: bi_normalize_def Let_def)

lemma digits_bi_resize [simp]: "digits (bi_resize n k) = digits n"
  by (simp add: bi_resize_def)

lemma sign_bi_resize [simp]: "sign (bi_resize n k) = sign n"
  by (simp add: bi_resize_def)

lemma sign_bi_normalize:
  "digits n \<noteq> [] \<Longrightarrow> sign (bi_normalize n) = (if mag (digits n) = 0 then 0 else sign n)"
proof -
  assume ne: "digits n \<noteq> []"
  let ?ds = "normalize_loop (digits n)"
  from ne have t: "trimmed ?ds" by (rule trimmed_normalize_loop)
  have "(length ?ds = 1 \<and> ?ds ! 0 = 0) \<longleftrightarrow> mag (digits n) = 0"
  proof
    assume "length ?ds = 1 \<and> ?ds ! 0 = 0"
    then have "?ds = [0]" by (cases ?ds) auto
    then have "mag ?ds = 0" by simp
    then show "mag (digits n) = 0" by simp
  next
    assume "mag (digits n) = 0"
    then have "mag ?ds = 0" by simp
    with t have "?ds = [0]" by (rule trimmed_zero)
    then show "length ?ds = 1 \<and> ?ds ! 0 = 0" by simp
  qed
  then show ?thesis by (simp add: bi_normalize_def Let_def)
qed

lemma normalized_trimmed: "normalized n \<Longrightarrow> trimmed (digits n)"
  by (auto simp: normalized_def trimmed_def)

lemma normalized_sign_zero: "normalized n \<Longrightarrow> (sign n = 0 \<longleftrightarrow> mag (digits n) = 0)"
proof -
  assume n: "normalized n"
  show ?thesis
  proof
    assume "sign n = 0"
    with n have "digits n = [0]" by (cases "digits n") (auto simp: normalized_def)
    then show "mag (digits n) = 0" by simp
  next
    assume "mag (digits n) = 0"
    with n have "digits n = [0]" by (intro trimmed_zero normalized_trimmed)
    with n show "sign n = 0" by (auto simp: normalized_def)
  qed
qed

lemma normalized_bi_normalize:
  assumes "digits n \<noteq> []" and "sign n = - 1 \<or> sign n = 0 \<or> sign n = 1"
      and "sign n = 0 \<longrightarrow> mag (digits n) = 0"
  shows "normalized (bi_normalize n)"
proof -
  let ?ds = "normalize_loop (digits n)"
  from assms(1) have t: "trimmed ?ds" by (rule trimmed_normalize_loop)
  show ?thesis
  proof (cases "mag (digits n) = 0")
    case True
    then have "mag ?ds = 0" by simp
    with t have "?ds = [0]" by (rule trimmed_zero)
    then show ?thesis by (simp add: normalized_def bi_normalize_def Let_def)
  next
    case False
    with assms have s: "sign n = - 1 \<or> sign n = 1" by auto
    from False assms(1) have s': "sign (bi_normalize n) = sign n" by (simp add: sign_bi_normalize)
    have "?ds ! (length ?ds - 1) \<noteq> 0"
    proof
      assume z: "?ds ! (length ?ds - 1) = 0"
      with t have "length ?ds = 1" by (auto simp: trimmed_def)
      with z have "?ds = [0]" by (cases ?ds) auto
      then have "mag ?ds = 0" by simp
      with False show False by simp
    qed
    moreover from t have "length ?ds \<ge> 1" by (cases ?ds) (auto simp: trimmed_def)
    ultimately show ?thesis using s s' by (simp add: normalized_def)
  qed
qed

lemma bi_normalize_normalized: "normalized n \<Longrightarrow> bi_normalize n = n"
proof -
  assume n: "normalized n"
  then have "normalize_loop (digits n) = digits n"
    by (intro normalize_loop_trimmed normalized_trimmed)
  with n show ?thesis by (auto simp: bi_normalize_def Let_def normalized_def)
qed

lemma normalize_loop_idem: "normalize_loop (normalize_loop ds) = normalize_loop ds"
proof (cases "ds = []")
  case True
  then show ?thesis by (simp add: normalize_loop_fixed)
next
  case False
  then show ?thesis by (intro normalize_loop_trimmed trimmed_normalize_loop)
qed

lemma bi_normalize_idem: "bi_normalize (bi_normalize n) = bi_normalize n"
  by (simp add: bi_normalize_def Let_def normalize_loop_idem)

lemma normalized_unique:
  "normalized a \<Longrightarrow> normalized b \<Longrightarrow> bi_val a = bi_val b \<Longrightarrow> sign a = sign b \<and> digits a = digits b"
proof -
  assume a: "normalized a" and b: "normalized b" and v: "bi_val a = bi_val b"
  have sa: "sign a = 0 \<or> sign a = 1 \<or> sign a = - 1" using a by (auto simp: normalized_def)
  have sb: "sign b = 0 \<or> sign b = 1 \<or> sign b = - 1" using b by (auto simp: normalized_def)
  have za: "sign a = 0 \<longleftrightarrow> mag (digits a) = 0" using a by (rule normalized_sign_zero)
  have zb: "sign b = 0 \<longleftrightarrow> mag (digits b) = 0" using b by (rule normalized_sign_zero)
  from v sa sb za zb have "sign a = sign b \<and> mag (digits a) = mag (digits b)"
    by (auto simp: bi_val_def)
  moreover from a b have "trimmed (digits a)" "trimmed (digits b)"
    by (simp_all add: normalized_trimmed)
  ultimately show ?thesis by (auto intro: trimmed_unique)
qed

subsection \<open>The carry loops\<close>

lemma carry_le_1: "unat (x :: u64) < 2 * 2 ^ 32 \<Longrightarrow> unat (drop_bit 32 x) \<le> 1"
  by (simp add: unat_drop_bit_32) 

lemma carry_lt: "unat (x :: u64) < 2 ^ 32 * 2 ^ 32 \<Longrightarrow> unat (drop_bit 32 x) < 2 ^ 32"
  by (simp add: unat_drop_bit_32 less_mult_imp_div_less)

lemma add_into_loop_mag:
  "unat carry \<le> 1 \<Longrightarrow> mag (add_into_loop rs bs carry) = mag rs + mag bs + unat carry"
proof (induction rs bs carry rule: add_into_loop.induct)
  case (1 carry)
  show ?case
  proof (cases "carry = 0")
    case True
    then show ?thesis by simp
  next
    case False
    from 1 have "unat carry < 2 * 2 ^ 32" by simp
    then have c': "unat (drop_bit 32 carry) \<le> 1" by (rule carry_le_1)
    have "mag (add_into_loop [] [] (drop_bit 32 carry)) = unat (drop_bit 32 carry)"
      using "1.IH" [OF False refl] c' by simp
    with False split_u64 [of carry] show ?thesis by (simp add: Let_def)
  qed
next
  case (2 r rs carry)
  let ?sum = "ucast r + ucast (0 :: u32) + carry :: u64"
  have s: "unat ?sum = unat r + unat carry" using unat_add3 [of carry r 0] 2 by simp
  with unat_u32_bound [of r] 2 have "unat ?sum < 2 * 2 ^ 32" by simp
  then have c': "unat (drop_bit 32 ?sum) \<le> 1" by (rule carry_le_1)
  have "mag (add_into_loop rs [] (drop_bit 32 ?sum)) = mag rs + unat (drop_bit 32 ?sum)"
    using "2.IH" [OF refl] c' by simp
  with split_u64 [of ?sum] s show ?case by (simp add: Let_def)
next
  case (3 b bs carry)
  let ?sum = "ucast (0 :: u32) + ucast b + carry :: u64"
  have s: "unat ?sum = unat b + unat carry" using unat_add3 [of carry 0 b] 3 by simp
  with unat_u32_bound [of b] 3 have "unat ?sum < 2 * 2 ^ 32" by simp
  then have c': "unat (drop_bit 32 ?sum) \<le> 1" by (rule carry_le_1)
  have "mag (add_into_loop [] bs (drop_bit 32 ?sum)) = mag bs + unat (drop_bit 32 ?sum)"
    using "3.IH" [OF refl] c' by simp
  with split_u64 [of ?sum] s show ?case by (simp add: Let_def)
next
  case (4 r rs b bs carry)
  let ?sum = "ucast r + ucast b + carry :: u64"
  have s: "unat ?sum = unat r + unat b + unat carry" using unat_add3 [of carry r b] 4 by simp
  with unat_u32_bound [of r] unat_u32_bound [of b] 4 have "unat ?sum < 2 * 2 ^ 32" by simp
  then have c': "unat (drop_bit 32 ?sum) \<le> 1" by (rule carry_le_1)
  have "mag (add_into_loop rs bs (drop_bit 32 ?sum)) = mag rs + mag bs + unat (drop_bit 32 ?sum)"
    using "4.IH" [OF refl] c' by simp
  with split_u64 [of ?sum] s show ?case by (simp add: Let_def)
qed

lemma add_into_loop_nonempty: "rs \<noteq> [] \<Longrightarrow> add_into_loop rs bs carry \<noteq> []"
  by (cases rs; cases bs) (simp_all add: Let_def)

lemma add_digit_loop_mag:
  "unat carry < 2 ^ 32 \<Longrightarrow> add_digit_loop ds carry = (ds', carry') \<Longrightarrow>
     mag ds' + 2 ^ (32 * length ds) * unat carry' = mag ds + unat carry
     \<and> length ds' = length ds \<and> unat carry' < 2 ^ 32"
proof (induction ds arbitrary: carry ds' carry')
  case Nil
  then show ?case by simp
next
  case (Cons d ds)
  show ?case
  proof (cases "carry = 0")
    case True
    with Cons.prems show ?thesis by auto
  next
    case False
    let ?sum = "ucast d + carry :: u64"
    have s: "unat ?sum = unat d + unat carry"
      using unat_add3 [of carry d 0] Cons.prems(1) by simp
    with unat_u32_bound [of d] Cons.prems(1) have "unat ?sum < 2 ^ 32 * 2 ^ 32" by simp
    then have c1: "unat (drop_bit 32 ?sum) < 2 ^ 32" by (rule carry_lt)
    obtain ds1 c2 where rec: "add_digit_loop ds (drop_bit 32 ?sum) = (ds1, c2)"
      by (cases "add_digit_loop ds (drop_bit 32 ?sum)") blast
    from Cons.IH [OF c1 rec] have ih: "mag ds1 + 2 ^ (32 * length ds) * unat c2 = mag ds + unat (drop_bit 32 ?sum)"
      "length ds1 = length ds" "unat c2 < 2 ^ 32" by simp_all
    from Cons.prems(2) False rec have res: "ds' = ucast ?sum # ds1" "carry' = c2"
      by (simp_all add: Let_def)
    have "mag ds' + 2 ^ (32 * length (d # ds)) * unat carry'
            = unat (ucast ?sum :: u32) + 2 ^ 32 * (mag ds1 + 2 ^ (32 * length ds) * unat c2)"
      using res by (simp add: algebra_simps power_add)
    also have "\<dots> = unat (ucast ?sum :: u32) + 2 ^ 32 * (mag ds + unat (drop_bit 32 ?sum))"
      using ih(1) by simp
    also have "\<dots> = unat ?sum + 2 ^ 32 * mag ds"
      using split_u64 [of ?sum] by (simp add: algebra_simps)
    finally show ?thesis using s res ih by simp
  qed
qed

lemma mul_digit_loop_mag:
  "unat carry < 2 ^ 32 \<Longrightarrow> mul_digit_loop ds digit carry = (ds', carry') \<Longrightarrow>
     mag ds' + 2 ^ (32 * length ds) * unat carry' = mag ds * unat digit + unat carry
     \<and> length ds' = length ds \<and> unat carry' < 2 ^ 32"
proof (induction ds arbitrary: carry ds' carry')
  case Nil
  then show ?case by simp
next
  case (Cons d ds)
  let ?prod = "ucast d * ucast digit + carry :: u64"
  have s: "unat ?prod = unat d * unat digit + unat carry"
    using unat_mul_add [of carry d digit 0] Cons.prems(1) by simp
  have "unat d \<le> 2 ^ 32 - 1" "unat digit \<le> 2 ^ 32 - 1"
    using unat_u32_bound [of d] unat_u32_bound [of digit] by simp_all
  then have "unat d * unat digit \<le> (2 ^ 32 - 1) * (2 ^ 32 - 1)" by (rule mult_le_mono)
  with s Cons.prems(1) have "unat ?prod < 2 ^ 32 * 2 ^ 32" by simp
  then have c1: "unat (drop_bit 32 ?prod) < 2 ^ 32" by (rule carry_lt)
  obtain ds1 c2 where rec: "mul_digit_loop ds digit (drop_bit 32 ?prod) = (ds1, c2)"
    by (cases "mul_digit_loop ds digit (drop_bit 32 ?prod)") blast
  from Cons.IH [OF c1 rec] have ih:
    "mag ds1 + 2 ^ (32 * length ds) * unat c2 = mag ds * unat digit + unat (drop_bit 32 ?prod)"
    "length ds1 = length ds" "unat c2 < 2 ^ 32" by simp_all
  from Cons.prems(2) rec have res: "ds' = ucast ?prod # ds1" "carry' = c2"
    by (simp_all add: Let_def)
  have "mag ds' + 2 ^ (32 * length (d # ds)) * unat carry'
          = unat (ucast ?prod :: u32) + 2 ^ 32 * (mag ds1 + 2 ^ (32 * length ds) * unat c2)"
    using res by (simp add: algebra_simps power_add)
  also have "\<dots> = unat (ucast ?prod :: u32) + 2 ^ 32 * (mag ds * unat digit + unat (drop_bit 32 ?prod))"
    using ih(1) by simp
  also have "\<dots> = unat ?prod + 2 ^ 32 * (mag ds * unat digit)"
    using split_u64 [of ?prod] by (simp add: algebra_simps)
  finally show ?case using s res ih by (simp add: algebra_simps)
qed

lemma mod_combine:
  fixes a y :: int
  assumes "0 \<le> a" "a < B" "0 < M"
  shows "(a + B * y) mod (B * M) = a + B * (y mod M)"
proof -
  from assms have B: "0 < B" by simp
  have d: "(a + B * y) div B = y" using assms B by (simp add: div_pos_pos_trivial)
  have m: "(a + B * y) mod B = a" using assms by (simp add: mod_pos_pos_trivial)
  have "(a + B * y) mod (B * M) = B * ((a + B * y) div B mod M) + (a + B * y) mod B"
    using assms(3) by (intro zmod_zmult2_eq) simp
  with d m show ?thesis by simp
qed

lemma int_mag_bound: "int (mag xs) < 2 ^ (32 * length xs)"
  using mag_bound [of xs] by (metis of_nat_less_iff of_nat_numeral of_nat_power)

lemma borrow_loop_mag:
  "borrow = 0 \<or> borrow = 1 \<Longrightarrow>
     int (mag (borrow_loop rs borrow)) = (int (mag rs) - borrow) mod 2 ^ (32 * length rs)
     \<and> length (borrow_loop rs borrow) = length rs"
proof (induction rs arbitrary: borrow)
  case Nil
  then show ?case by auto
next
  case (Cons r rs)
  have bound: "int (mag (r # rs)) < 2 ^ (32 * length (r # rs))" by (rule int_mag_bound)
  show ?case
  proof (cases "borrow = 0")
    case True
    with bound show ?thesis by (simp add: mod_pos_pos_trivial)
  next
    case False
    with Cons.prems have b1: "borrow = 1" by simp
    show ?thesis
    proof (cases "r > 0")
      case True
      then have "r \<noteq> 0" by auto
      then have u: "unat (r - 1) = unat r - 1" by (rule unat_minus_one)
      from \<open>r \<noteq> 0\<close> have pos: "1 \<le> unat r" by (metis One_nat_def Suc_leI unat_eq_0 neq0_conv)
      have e: "int (mag ((r - 1) # rs)) = int (mag (r # rs)) - 1" using u pos by (simp add: of_nat_diff)
      have "1 \<le> mag (r # rs)" using pos by simp
      then have "0 \<le> int (mag (r # rs)) - 1" by linarith
      moreover have "int (mag (r # rs)) - 1 < 2 ^ (32 * length (r # rs))" using bound by linarith
      ultimately have "(int (mag (r # rs)) - 1) mod 2 ^ (32 * length (r # rs)) = int (mag (r # rs)) - 1"
        by (rule mod_pos_pos_trivial)
      with e True b1 show ?thesis by (simp del: mag.simps)
    next
      case False
      then have r0: "r = 0" by (simp add: word_neq_0_conv [symmetric])
      from Cons.IH [of 1] have ih: "int (mag (borrow_loop rs 1)) = (int (mag rs) - 1) mod 2 ^ (32 * length rs)"
        "length (borrow_loop rs 1) = length rs" by simp_all
      have "(int (mag (r # rs)) - 1) mod 2 ^ (32 * length (r # rs))
             = ((2 ^ 32 - 1) + 2 ^ 32 * (int (mag rs) - 1)) mod (2 ^ 32 * 2 ^ (32 * length rs))"
        using r0 by (simp add: algebra_simps power_add)
      also have "\<dots> = (2 ^ 32 - 1) + 2 ^ 32 * ((int (mag rs) - 1) mod 2 ^ (32 * length rs))"
        by (rule mod_combine) simp_all
      finally show ?thesis using r0 b1 ih by simp
    qed
  qed
qed

lemma uint_u32_bound: "uint (x :: u32) < 2 ^ 32"
  using uint_lt2p [of x] by simp

lemma sub_step:
  fixes r b :: u32
  assumes "borrow = 0 \<or> borrow = 1"
  defines "diff \<equiv> (ucast r :: u64) - ucast b - word_of_int borrow"
  shows "(diff > ucast r) \<longleftrightarrow> (uint r - uint b - borrow < 0)"
    and "uint (ucast diff :: u32) = (uint r - uint b - borrow) mod 2 ^ 32"
proof -
  let ?x = "uint r - uint b - borrow"
  have r: "uint r < 2 ^ 32" "0 \<le> uint r" and b: "uint b < 2 ^ 32" "0 \<le> uint b"
    using uint_u32_bound [of r] uint_u32_bound [of b] by simp_all
  have ur: "uint (ucast r :: u64) = uint r" and ub: "uint (ucast b :: u64) = uint b"
    by (simp_all add: uint_up_ucast is_up)
  have uw: "uint (word_of_int borrow :: u64) = borrow" using assms(1) by auto
  have ud: "uint diff = ?x mod 2 ^ 64"
    unfolding diff_def by (simp add: uint_word_ariths ur ub uw mod_simps)
  have bb: "0 \<le> borrow" "borrow \<le> 1" using assms(1) by auto
  have r0: "0 \<le> uint r" and b0: "0 \<le> uint b" by simp_all
  have rn: "uint r < 4294967296" and bn: "uint b < 4294967296" using r(1) b(1) by simp_all
  have "- 4294967296 \<le> ?x" using rn bn bb uint_ge_0 [of r] uint_ge_0 [of b] by linarith
  then have lower: "- (2 ^ 32) \<le> ?x" by simp
  have "?x < 4294967296" using rn bn bb uint_ge_0 [of r] uint_ge_0 [of b] by linarith
  then have upper: "?x < 2 ^ 32" by simp
  show "(diff > ucast r) \<longleftrightarrow> (?x < 0)"
  proof (cases "?x < 0")
    case True
    have "(?x + 2 ^ 64) mod 2 ^ 64 = ?x + 2 ^ 64"
      using lower True by (intro mod_pos_pos_trivial) simp_all
    then have "?x mod 2 ^ 64 = ?x + 2 ^ 64" by simp
    with ud have "uint diff = ?x + 18446744073709551616" by simp
    moreover have "- 4294967296 \<le> ?x" using lower by simp
    ultimately have "uint (ucast r :: u64) < uint diff" unfolding ur using rn by linarith
    with True show ?thesis by (simp add: word_less_def)
  next
    case False
    then have "?x mod 2 ^ 64 = ?x" using upper by (intro mod_pos_pos_trivial) simp_all
    with ud have "uint diff = ?x" by simp
    then have "uint diff \<le> uint (ucast r :: u64)"
      unfolding ur using bb uint_ge_0 [of b] by linarith
    with False show ?thesis by (simp add: word_less_def not_less)
  qed
  have "uint (ucast diff :: u32) = uint diff mod 2 ^ 32"
    by (simp add: unsigned_ucast_eq take_bit_eq_mod)
  also have "\<dots> = ?x mod 2 ^ 32"
    unfolding ud by (simp add: mod_mod_cancel)
  finally show "uint (ucast diff :: u32) = ?x mod 2 ^ 32" .
qed

lemma sub_into_loop_mag:
  "borrow = 0 \<or> borrow = 1 \<Longrightarrow> length bs \<le> length rs \<Longrightarrow>
     int (mag (sub_into_loop rs bs borrow))
       = (int (mag rs) - int (mag bs) - borrow) mod 2 ^ (32 * length rs)
     \<and> length (sub_into_loop rs bs borrow) = length rs"
proof (induction rs bs borrow rule: sub_into_loop.induct)
  case (1 rs borrow)
  then show ?case using borrow_loop_mag [of borrow rs] by simp
next
  case (2 b bs borrow)
  then show ?case by simp
next
  case (3 r rs b bs borrow)
  define diff where "diff = (ucast r :: u64) - ucast b - word_of_int borrow"
  define x where "x = uint r - uint b - borrow"
  define borrow' :: int where "borrow' = (if diff > ucast r then 1 else 0)"
  from sub_step [OF "3.prems"(1), of r b] have
    st1: "(diff > ucast r) \<longleftrightarrow> x < 0" and st2: "uint (ucast diff :: u32) = x mod 2 ^ 32"
    unfolding diff_def x_def by simp_all
  have r: "uint r < 2 ^ 32" "0 \<le> uint r" and b: "uint b < 2 ^ 32" "0 \<le> uint b"
    using uint_u32_bound [of r] uint_u32_bound [of b] by simp_all
  have bb: "0 \<le> borrow" "borrow \<le> 1" using "3.prems"(1) by auto
  have r0: "0 \<le> uint r" and b0: "0 \<le> uint b" by simp_all
  have xdiv: "x div 2 ^ 32 = - borrow'"
  proof (cases "x < 0")
    case True
    have rn: "uint r < 4294967296" and bn: "uint b < 4294967296" using r(1) b(1) by simp_all
    have "- 4294967296 \<le> x"
      using rn bn bb uint_ge_0 [of r] uint_ge_0 [of b] unfolding x_def by linarith
    then have "- (2 ^ 32) \<le> x" by simp
    with True have "0 \<le> x + 2 ^ 32" "x + 2 ^ 32 < 2 ^ 32" by simp_all
    then have "(x + 2 ^ 32) div 2 ^ 32 = 0" by (rule div_pos_pos_trivial)
    then have "x div 2 ^ 32 = - 1" by simp
    with True st1 show ?thesis by (simp add: borrow'_def)
  next
    case False
    have rn: "uint r < 4294967296" and bn: "uint b < 4294967296" using r(1) b(1) by simp_all
    have "x < 4294967296"
      using rn bn bb uint_ge_0 [of r] uint_ge_0 [of b] unfolding x_def by linarith
    then have "x < 2 ^ 32" by simp
    with False have "x div 2 ^ 32 = 0" by (intro div_pos_pos_trivial) simp_all
    with False st1 show ?thesis by (simp add: borrow'_def)
  qed
  have b': "borrow' = 0 \<or> borrow' = 1" by (simp add: borrow'_def)
  from "3.prems"(2) have len: "length bs \<le> length rs" by simp
  have ih: "int (mag (sub_into_loop rs bs borrow'))
              = (int (mag rs) - int (mag bs) - borrow') mod 2 ^ (32 * length rs)"
    "length (sub_into_loop rs bs borrow') = length rs"
    using "3.IH" [OF diff_def borrow'_def b' len]
    by simp_all
  have res: "sub_into_loop (r # rs) (b # bs) borrow = ucast diff # sub_into_loop rs bs borrow'"
    by (simp add: Let_def diff_def borrow'_def)
  have xeq: "x mod 2 ^ 32 = x + 2 ^ 32 * borrow'"
    using xdiv minus_mult_div_eq_mod [of x "2 ^ 32"] by simp
  have "(int (mag (r # rs)) - int (mag (b # bs)) - borrow) mod 2 ^ (32 * length (r # rs))
          = (x + 2 ^ 32 * (int (mag rs) - int (mag bs))) mod (2 ^ 32 * 2 ^ (32 * length rs))"
    by (simp add: x_def algebra_simps power_add)
  also have "x + 2 ^ 32 * (int (mag rs) - int (mag bs))
          = x mod 2 ^ 32 + 2 ^ 32 * (int (mag rs) - int (mag bs) - borrow')"
    unfolding xeq by (simp add: algebra_simps)
  also have "(x mod 2 ^ 32 + 2 ^ 32 * (int (mag rs) - int (mag bs) - borrow')) mod (2 ^ 32 * 2 ^ (32 * length rs))
          = x mod 2 ^ 32 + 2 ^ 32 * ((int (mag rs) - int (mag bs) - borrow') mod 2 ^ (32 * length rs))"
    by (rule mod_combine) simp_all
  finally show ?case using res ih st2 by simp
qed

subsection \<open>Shifting and dividing by ten\<close>

lemma even_or_one: "even (n::nat) \<Longrightarrow> n OR 1 = n + 1"
  using or_one_eq [of n] by simp

lemma unat_shift_limb:
  fixes d carry :: u32
  assumes "unat carry \<le> 1"
  shows "unat (push_bit 1 d OR carry) + 2 ^ 32 * unat (drop_bit 31 d) = 2 * unat d + unat carry"
    and "unat (drop_bit 31 d) \<le> 1"
proof -
  have d: "unat d < 2 ^ 32" by (rule unat_u32_bound)
  have p: "unat (push_bit 1 d) = (2 * unat d) mod 2 ^ 32"
    by (simp add: push_bit_eq_mult unat_word_ariths mult.commute)
  have dr: "unat (drop_bit 31 d) = unat d div 2 ^ 31"
    by (simp add: unat_drop_bit_eq drop_bit_eq_div unat_div)
  from d show "unat (drop_bit 31 d) \<le> 1" unfolding dr by simp
  have mm: "(2 * unat d) mod 2 ^ 32 = 2 * (unat d mod 2 ^ 31)"
    using mult_mod_right [of 2 "unat d" "2 ^ 31"] by simp
  have ev: "even ((2 * unat d) mod 2 ^ 32)" unfolding mm by simp
  have "unat (push_bit 1 d OR carry) = unat (push_bit 1 d) OR unat carry"
    by (simp add: unsigned_or_eq)
  also have "\<dots> = (2 * unat d) mod 2 ^ 32 + unat carry"
  proof (cases "unat carry = 0")
    case True
    show ?thesis unfolding p True by simp
  next
    case False
    with assms have c1: "unat carry = 1" by simp
    have "(2 * unat d) mod 2 ^ 32 OR 1 = (2 * unat d) mod 2 ^ 32 + 1"
      using ev by (rule even_or_one)
    then show ?thesis unfolding p c1 .
  qed
  finally have "unat (push_bit 1 d OR carry) = (2 * unat d) mod 2 ^ 32 + unat carry" .
  moreover have "(2 * unat d) mod 2 ^ 32 + 2 ^ 32 * (unat d div 2 ^ 31) = 2 * unat d"
  proof -
    have "unat d mod 2 ^ 31 + 2 ^ 31 * (unat d div 2 ^ 31) = unat d" by simp
    then have "2 * (unat d mod 2 ^ 31) + 2 * (2 ^ 31 * (unat d div 2 ^ 31)) = 2 * unat d"
      by (metis distrib_left)
    then show ?thesis unfolding mm by simp
  qed
  ultimately show "unat (push_bit 1 d OR carry) + 2 ^ 32 * unat (drop_bit 31 d) = 2 * unat d + unat carry"
    unfolding dr by simp
qed

lemma shift_loop_mag:
  "unat carry \<le> 1 \<Longrightarrow> shift_loop ds carry = (ds', carry') \<Longrightarrow>
     mag ds' + 2 ^ (32 * length ds) * unat carry' = 2 * mag ds + unat carry
     \<and> length ds' = length ds \<and> unat carry' \<le> 1"
proof (induction ds arbitrary: carry ds' carry')
  case Nil
  then show ?case by simp
next
  case (Cons d ds)
  note st = unat_shift_limb [OF Cons.prems(1), of d]
  obtain ds1 c2 where rec: "shift_loop ds (drop_bit 31 d) = (ds1, c2)"
    by (cases "shift_loop ds (drop_bit 31 d)") blast
  from Cons.IH [OF st(2) rec] have ih:
    "mag ds1 + 2 ^ (32 * length ds) * unat c2 = 2 * mag ds + unat (drop_bit 31 d)"
    "length ds1 = length ds" "unat c2 \<le> 1" by simp_all
  from Cons.prems(2) rec have res: "ds' = (push_bit 1 d OR carry) # ds1" "carry' = c2"
    by (simp_all add: Let_def)
  have "mag ds' + 2 ^ (32 * length (d # ds)) * unat carry'
          = unat (push_bit 1 d OR carry) + 2 ^ 32 * (mag ds1 + 2 ^ (32 * length ds) * unat c2)"
    using res by (simp add: algebra_simps power_add)
  also have "\<dots> = unat (push_bit 1 d OR carry) + 2 ^ 32 * (2 * mag ds + unat (drop_bit 31 d))"
    using ih(1) by simp
  also have "\<dots> = 2 * unat d + unat carry + 2 ^ 32 * (2 * mag ds)"
    using st(1) by (simp add: algebra_simps)
  finally show ?case using res ih by (simp add: algebra_simps)
qed

lemma div10_step:
  fixes d :: u32 and remainder :: u64
  assumes "unat remainder < 10"
  defines "current \<equiv> ucast d + push_bit 32 remainder"
  shows "unat (ucast (current div DEC_DIVISOR) :: u32) * 10 + unat (current mod DEC_DIVISOR)
           = unat d + 2 ^ 32 * unat remainder"
    and "unat (current mod DEC_DIVISOR) < 10"
proof -
  have d: "unat d < 2 ^ 32" by (rule unat_u32_bound)
  have pb: "unat (push_bit 32 remainder) = 2 ^ 32 * unat remainder"
  proof -
    have "unat remainder * 4294967296 < 18446744073709551616" using assms(1) by simp
    then have "unat remainder * 4294967296 mod 18446744073709551616 = unat remainder * 4294967296"
      by (rule mod_less)
    then show ?thesis
      by (simp add: push_bit_eq_mult unat_word_ariths mult.commute)
  qed
  have bound: "unat d + 2 ^ 32 * unat remainder < 10 * 2 ^ 32" using d assms(1) by simp
  have cur: "unat current = unat d + 2 ^ 32 * unat remainder"
  proof -
    have "unat current = (unat d + 2 ^ 32 * unat remainder) mod 2 ^ 64"
      unfolding current_def by (simp add: unat_word_ariths unat_ucast_up pb)
    also have "\<dots> = unat d + 2 ^ 32 * unat remainder" using bound by simp
    finally show ?thesis .
  qed
  have q: "unat (current div DEC_DIVISOR) = unat current div 10"
    by (simp add: DEC_DIVISOR_def unat_div)
  have "unat current div 10 < 2 ^ 32" using bound cur by simp
  then have uq: "unat (ucast (current div DEC_DIVISOR) :: u32) = unat current div 10"
    by (simp add: unat_ucast_down q)
  have m: "unat (current mod DEC_DIVISOR) = unat current mod 10"
    by (simp add: DEC_DIVISOR_def unat_mod)
  show "unat (current mod DEC_DIVISOR) < 10" unfolding m by simp
  show "unat (ucast (current div DEC_DIVISOR) :: u32) * 10 + unat (current mod DEC_DIVISOR)
           = unat d + 2 ^ 32 * unat remainder"
    unfolding uq m cur [symmetric] by simp
qed

lemma div10_loop_mag:
  "div10_loop ds = (qs, remainder) \<Longrightarrow>
     mag qs * 10 + unat remainder = mag ds \<and> length qs = length ds \<and> unat remainder < 10"
proof (induction ds arbitrary: qs remainder)
  case Nil
  then show ?case by simp
next
  case (Cons d ds)
  obtain qs1 r1 where rec: "div10_loop ds = (qs1, r1)"
    by (cases "div10_loop ds") blast
  from Cons.IH [OF rec] have ih: "mag qs1 * 10 + unat r1 = mag ds" "length qs1 = length ds"
    "unat r1 < 10" by simp_all
  define current where "current = (ucast d :: u64) + push_bit 32 r1"
  note st = div10_step [OF ih(3), of d, folded current_def]
  from Cons.prems rec have res: "qs = ucast (current div DEC_DIVISOR) # qs1"
    "remainder = current mod DEC_DIVISOR"
    by (simp_all add: Let_def current_def)
  have "mag qs * 10 + unat remainder
          = (unat (ucast (current div DEC_DIVISOR) :: u32) * 10 + unat (current mod DEC_DIVISOR))
            + 2 ^ 32 * (mag qs1 * 10)"
    using res by (simp add: algebra_simps)
  also have "\<dots> = unat d + 2 ^ 32 * (mag qs1 * 10 + unat r1)"
    using st(1) by (simp add: algebra_simps)
  finally show ?case using res ih st(2) by simp
qed

subsection \<open>Comparison\<close>

lemma compare_loop_take:
  "i \<le> length a \<Longrightarrow> length a = length b \<Longrightarrow>
     compare_loop a b i =
       (if mag (take i a) > mag (take i b) then 1
        else if mag (take i a) < mag (take i b) then - 1 else 0)"
proof (induction i)
  case 0
  then show ?case by simp
next
  case (Suc i)
  then have i: "i < length a" "i < length b" by simp_all
  have ta: "mag (take (Suc i) a) = mag (take i a) + 2 ^ (32 * i) * unat (a ! i)"
    and tb: "mag (take (Suc i) b) = mag (take i b) + 2 ^ (32 * i) * unat (b ! i)"
    using i by (simp_all add: mag_take_Suc)
  have ba: "mag (take i a) < 2 ^ (32 * i)" and bb: "mag (take i b) < 2 ^ (32 * i)"
    using mag_bound [of "take i a"] mag_bound [of "take i b"] i by (simp_all add: min_def)
  show ?case
  proof (cases "a ! i > b ! i")
    case True
    then have "unat (b ! i) + 1 \<le> unat (a ! i)" by (simp add: word_less_nat_alt)
    then have "2 ^ (32 * i) * (unat (b ! i) + 1) \<le> 2 ^ (32 * i) * unat (a ! i)"
      by (rule mult_le_mono2)
    with bb have "mag (take (Suc i) b) < mag (take (Suc i) a)"
      unfolding ta tb by (simp add: algebra_simps)
    with True show ?thesis by simp
  next
    case False
    show ?thesis
    proof (cases "a ! i < b ! i")
      case True
      then have "unat (a ! i) + 1 \<le> unat (b ! i)" by (simp add: word_less_nat_alt)
      then have "2 ^ (32 * i) * (unat (a ! i) + 1) \<le> 2 ^ (32 * i) * unat (b ! i)"
        by (rule mult_le_mono2)
      with ba have "mag (take (Suc i) a) < mag (take (Suc i) b)"
        unfolding ta tb by (simp add: algebra_simps)
      with True False show ?thesis by simp
    next
      case nlt: False
      with False have "a ! i = b ! i" by simp
      with False nlt Suc.IH Suc.prems show ?thesis unfolding ta tb by simp
    qed
  qed
qed

lemma bi_compare_abs_mag:
  assumes "trimmed (digits a)" "trimmed (digits b)"
  shows "bi_compare_abs a b =
           (if mag (digits a) > mag (digits b) then 1
            else if mag (digits a) < mag (digits b) then - 1 else 0)"
proof (cases "length (digits a) = length (digits b)")
  case True
  then show ?thesis
    using compare_loop_take [of "length (digits a)" "digits a" "digits b"]
    by (simp add: bi_compare_abs_def)
next
  case False
  show ?thesis
  proof (cases "length (digits a) > length (digits b)")
    case True
    then have "\<not> length (digits a) \<le> length (digits b)" by simp
    with trimmed_length_le [OF assms] have "\<not> mag (digits a) \<le> mag (digits b)" by blast
    then have "mag (digits b) < mag (digits a)" by simp
    with True show ?thesis by (simp add: bi_compare_abs_def)
  next
    case nb: False
    with False have lt: "length (digits a) < length (digits b)" by simp
    then have "\<not> length (digits b) \<le> length (digits a)" by simp
    with trimmed_length_le [OF assms(2) assms(1)] have "\<not> mag (digits b) \<le> mag (digits a)" by blast
    then have "mag (digits a) < mag (digits b)" by simp
    with lt show ?thesis by (simp add: bi_compare_abs_def)
  qed
qed

lemma bi_compare_abs_length: "bi_compare_abs a b \<ge> 0 \<Longrightarrow> length (digits b) \<le> length (digits a)"
  by (auto simp: bi_compare_abs_def split: if_splits)

subsection \<open>The in-place helpers on values\<close>

lemma trimmed_last_nonzero: "trimmed ds \<Longrightarrow> mag ds \<noteq> 0 \<Longrightarrow> ds ! (length ds - 1) \<noteq> 0"
proof
  assume t: "trimmed ds" and nz: "mag ds \<noteq> 0" and z: "ds ! (length ds - 1) = 0"
  with t have "length ds = 1" by (auto simp: trimmed_def)
  with z have "ds = [0]" by (cases ds) auto
  with nz show False by simp
qed

lemma normalizedI:
  "trimmed (digits n) \<Longrightarrow> mag (digits n) \<noteq> 0 \<Longrightarrow> sign n = 1 \<or> sign n = - 1 \<Longrightarrow> normalized n"
proof -
  assume t: "trimmed (digits n)" and nz: "mag (digits n) \<noteq> 0" and s: "sign n = 1 \<or> sign n = - 1"
  from t nz have "digits n ! (length (digits n) - 1) \<noteq> 0" by (rule trimmed_last_nonzero)
  moreover from t have "length (digits n) \<ge> 1" by (cases "digits n") (auto simp: trimmed_def)
  ultimately show ?thesis using s by (auto simp: normalized_def)
qed

lemma normalized_create [simp]: "normalized bi_create"
  by (simp add: normalized_def bi_create_def)

lemma bi_val_create [simp]: "bi_val bi_create = 0"
  by (simp add: bi_val_def bi_create_def)

lemma normalized_digits_nonempty: "normalized n \<Longrightarrow> digits n \<noteq> []"
  by (auto simp: normalized_def)

lemma normalized_sign_cases: "normalized n \<Longrightarrow> sign n = - 1 \<or> sign n = 0 \<or> sign n = 1"
  by (auto simp: normalized_def)

lemma bi_add_into_abs_props:
  assumes "digits res \<noteq> []"
  shows "mag (digits (bi_add_into_abs res b)) = mag (digits res) + mag (digits b)"
    and "trimmed (digits (bi_add_into_abs res b))"
    and "sign (bi_add_into_abs res b)
           = (if mag (digits res) + mag (digits b) = 0 then 0 else sign res)"
proof -
  let ?ds = "add_into_loop (digits res) (digits b) 0"
  have m: "mag ?ds = mag (digits res) + mag (digits b)" by (simp add: add_into_loop_mag)
  have ne: "?ds \<noteq> []" using assms by (rule add_into_loop_nonempty)
  show "mag (digits (bi_add_into_abs res b)) = mag (digits res) + mag (digits b)"
    by (simp add: bi_add_into_abs_def Let_def m)
  show "trimmed (digits (bi_add_into_abs res b))"
    using ne by (simp add: bi_add_into_abs_def Let_def trimmed_normalize_loop)
  show "sign (bi_add_into_abs res b)
           = (if mag (digits res) + mag (digits b) = 0 then 0 else sign res)"
    using ne m by (simp add: bi_add_into_abs_def Let_def sign_bi_normalize)
qed

lemma bi_sub_into_abs_props:
  assumes "digits res \<noteq> []" "length (digits b) \<le> length (digits res)"
      and "mag (digits b) \<le> mag (digits res)"
  shows "mag (digits (bi_sub_into_abs res b)) = mag (digits res) - mag (digits b)"
    and "trimmed (digits (bi_sub_into_abs res b))"
    and "sign (bi_sub_into_abs res b)
           = (if mag (digits res) = mag (digits b) then 0 else sign res)"
proof -
  let ?ds = "sub_into_loop (digits res) (digits b) 0"
  from sub_into_loop_mag [of 0 "digits b" "digits res"] assms(2)
  have im: "int (mag ?ds) = (int (mag (digits res)) - int (mag (digits b))) mod 2 ^ (32 * length (digits res))"
    and len: "length ?ds = length (digits res)" by simp_all
  have "0 \<le> int (mag (digits res)) - int (mag (digits b))" using assms(3) by simp
  moreover have "int (mag (digits res)) - int (mag (digits b)) < 2 ^ (32 * length (digits res))"
    using int_mag_bound [of "digits res"] by linarith
  ultimately have "int (mag ?ds) = int (mag (digits res)) - int (mag (digits b))"
    unfolding im by (rule mod_pos_pos_trivial)
  then have m: "mag ?ds = mag (digits res) - mag (digits b)" using assms(3) by linarith
  from len assms(1) have ne: "?ds \<noteq> []" by auto
  show "mag (digits (bi_sub_into_abs res b)) = mag (digits res) - mag (digits b)"
    by (simp add: bi_sub_into_abs_def m)
  show "trimmed (digits (bi_sub_into_abs res b))"
    using ne by (simp add: bi_sub_into_abs_def trimmed_normalize_loop)
  show "sign (bi_sub_into_abs res b)
           = (if mag (digits res) = mag (digits b) then 0 else sign res)"
    using ne m assms(3) by (auto simp: bi_sub_into_abs_def sign_bi_normalize)
qed

lemma bi_add_digit_into_props:
  assumes "digits res \<noteq> []" and "sign res = 0 \<longrightarrow> mag (digits res) = 0"
  shows "mag (digits (bi_add_digit_into res val)) = mag (digits res) + unat val"
    and "digits (bi_add_digit_into res val) \<noteq> []"
    and "sign (bi_add_digit_into res val)
           = (if val = 0 then sign res else if sign res = 0 then 1 else sign res)"
    and "trimmed (digits res) \<longrightarrow> trimmed (digits (bi_add_digit_into res val))"
proof -
  obtain ds carry where l: "add_digit_loop (digits res) (ucast val) = (ds, carry)"
    by (cases "add_digit_loop (digits res) (ucast val)") blast
  have "unat (ucast val :: u64) < 2 ^ 32" using unat_u32_bound [of val] by (simp add: unat_ucast_up)
  from add_digit_loop_mag [OF this l] have
    lm: "mag ds + 2 ^ (32 * length (digits res)) * unat carry = mag (digits res) + unat val"
    and ll: "length ds = length (digits res)" and lc: "unat carry < 2 ^ 32"
    by (simp_all add: unat_ucast_up)
  define out where "out = (if carry \<noteq> 0 then ds @ [ucast carry :: u32] else ds)"
  have uc: "unat (ucast carry :: u32) = unat carry" using lc by (simp add: unat_ucast_down)
  have om: "mag out = mag (digits res) + unat val"
    using lm ll uc by (auto simp: out_def mag_snoc)
  have one: "out \<noteq> []" using ll assms(1) by (auto simp: out_def)
  have r: "val \<noteq> 0 \<Longrightarrow> sign res \<noteq> 0 \<Longrightarrow>
      digits (bi_add_digit_into res val) = normalize_loop out
      \<and> sign (bi_add_digit_into res val) = (if mag out = 0 then 0 else sign res)"
    using l one by (auto simp: bi_add_digit_into_def out_def sign_bi_normalize)
  have vpos: "val \<noteq> 0 \<Longrightarrow> unat val \<noteq> 0" by (simp add: unat_eq_0)
  show "mag (digits (bi_add_digit_into res val)) = mag (digits res) + unat val"
  proof (cases "val = 0 \<or> sign res = 0")
    case True
    with assms(2) show ?thesis by (auto simp: bi_add_digit_into_def)
  next
    case False
    with r om show ?thesis by simp
  qed
  show "digits (bi_add_digit_into res val) \<noteq> []"
  proof (cases "val = 0 \<or> sign res = 0")
    case True
    with assms(1) show ?thesis by (auto simp: bi_add_digit_into_def)
  next
    case False
    with r one trimmed_normalize_loop [OF one] show ?thesis by (auto simp: trimmed_def)
  qed
  show "sign (bi_add_digit_into res val)
           = (if val = 0 then sign res else if sign res = 0 then 1 else sign res)"
  proof (cases "val = 0 \<or> sign res = 0")
    case True
    then show ?thesis by (auto simp: bi_add_digit_into_def)
  next
    case False
    with r om vpos show ?thesis by simp
  qed
  show "trimmed (digits res) \<longrightarrow> trimmed (digits (bi_add_digit_into res val))"
  proof (cases "val = 0 \<or> sign res = 0")
    case True
    then show ?thesis by (auto simp: bi_add_digit_into_def trimmed_def)
  next
    case False
    with r one show ?thesis by (simp add: trimmed_normalize_loop)
  qed
qed

lemma bi_mul_digit_into_props:
  assumes "digits res \<noteq> []" and "sign res = 0 \<longrightarrow> mag (digits res) = 0"
  shows "mag (digits (bi_mul_digit_into res digit)) = mag (digits res) * unat digit"
    and "trimmed (digits (bi_mul_digit_into res digit))"
    and "sign (bi_mul_digit_into res digit)
           = (if mag (digits res) * unat digit = 0 then 0 else sign res)"
proof -
  obtain ds carry where l: "mul_digit_loop (digits res) digit 0 = (ds, carry)"
    by (cases "mul_digit_loop (digits res) digit 0") blast
  have "unat (0 :: u64) < 2 ^ 32" by simp
  from mul_digit_loop_mag [OF this l] have
    lm: "mag ds + 2 ^ (32 * length (digits res)) * unat carry = mag (digits res) * unat digit"
    and ll: "length ds = length (digits res)" and lc: "unat carry < 2 ^ 32"
    by simp_all
  define out where "out = (if carry \<noteq> 0 then ds @ [ucast carry :: u32] else ds)"
  have uc: "unat (ucast carry :: u32) = unat carry" using lc by (simp add: unat_ucast_down)
  have om: "mag out = mag (digits res) * unat digit"
    using lm ll uc by (auto simp: out_def mag_snoc)
  have one: "out \<noteq> []" using ll assms(1) by (auto simp: out_def)
  have r: "digit \<noteq> 0 \<Longrightarrow> sign res \<noteq> 0 \<Longrightarrow>
      digits (bi_mul_digit_into res digit) = normalize_loop out
      \<and> sign (bi_mul_digit_into res digit) = (if mag out = 0 then 0 else sign res)"
    using l one by (auto simp: bi_mul_digit_into_def out_def Let_def sign_bi_normalize)
  have z: "sign res = 0 \<or> digit = 0 \<Longrightarrow> mag (digits res) * unat digit = 0"
    using assms(2) by auto
  show "mag (digits (bi_mul_digit_into res digit)) = mag (digits res) * unat digit"
  proof (cases "sign res = 0 \<or> digit = 0")
    case True
    with z show ?thesis by (simp add: bi_mul_digit_into_def)
  next
    case False
    with r om show ?thesis by simp
  qed
  show "trimmed (digits (bi_mul_digit_into res digit))"
  proof (cases "sign res = 0 \<or> digit = 0")
    case True
    then show ?thesis by (simp add: bi_mul_digit_into_def trimmed_def)
  next
    case False
    with r one show ?thesis by (simp add: trimmed_normalize_loop)
  qed
  show "sign (bi_mul_digit_into res digit)
           = (if mag (digits res) * unat digit = 0 then 0 else sign res)"
  proof (cases "sign res = 0 \<or> digit = 0")
    case True
    with z show ?thesis by (simp add: bi_mul_digit_into_def)
  next
    case False
    with r om show ?thesis by simp
  qed
qed

lemma bi_div10_into_props:
  assumes "digits res \<noteq> []" and "sign res = 0 \<longrightarrow> mag (digits res) = 0"
      and "bi_div10_into res = (res', remainder)"
  shows "mag (digits res') * 10 + unat remainder = mag (digits res)"
    and "unat remainder < 10"
    and "digits res' \<noteq> []"
    and "sign res' = (if mag (digits res') = 0 then 0 else sign res)"
proof -
  obtain qs r64 where l: "div10_loop (digits res) = (qs, r64)"
    by (cases "div10_loop (digits res)") blast
  from div10_loop_mag [OF l] have lm: "mag qs * 10 + unat r64 = mag (digits res)"
    and ll: "length qs = length (digits res)" and lr: "unat r64 < 10" by simp_all
  have ur: "unat (ucast r64 :: u32) = unat r64" using lr by (simp add: unat_ucast_down)
  from ll assms(1) have qne: "qs \<noteq> []" by auto
  show "mag (digits res') * 10 + unat remainder = mag (digits res)"
  proof (cases "sign res = 0")
    case True
    with assms show ?thesis by (auto simp: bi_div10_into_def)
  next
    case False
    with assms(3) l lm ur show ?thesis by (auto simp: bi_div10_into_def)
  qed
  show "unat remainder < 10"
    using assms(3) l lr ur by (auto simp: bi_div10_into_def split: if_splits)
  show "digits res' \<noteq> []"
  proof (cases "sign res = 0")
    case True
    with assms show ?thesis by (auto simp: bi_div10_into_def)
  next
    case False
    with assms(3) l trimmed_normalize_loop [OF qne] show ?thesis
      by (auto simp: bi_div10_into_def trimmed_def)
  qed
  show "sign res' = (if mag (digits res') = 0 then 0 else sign res)"
  proof (cases "sign res = 0")
    case True
    with assms show ?thesis by (auto simp: bi_div10_into_def)
  next
    case False
    with assms(3) l qne show ?thesis
      by (auto simp: bi_div10_into_def sign_bi_normalize)
  qed
qed

lemma bi_shift_left_one_props:
  assumes "sign n = 0 \<longrightarrow> mag (digits n) = 0"
  shows "mag (digits (bi_shift_left_one n)) = 2 * mag (digits n)"
    and "sign (bi_shift_left_one n) = sign n"
    and "digits n \<noteq> [] \<longrightarrow> digits (bi_shift_left_one n) \<noteq> []"
    and "length (digits n) \<le> length (digits (bi_shift_left_one n))"
proof -
  obtain ds carry where l: "shift_loop (digits n) 0 = (ds, carry)"
    by (cases "shift_loop (digits n) 0") blast
  have "unat (0 :: u32) \<le> 1" by simp
  from shift_loop_mag [OF this l] have
    lm: "mag ds + 2 ^ (32 * length (digits n)) * unat carry = 2 * mag (digits n)"
    and ll: "length ds = length (digits n)" by simp_all
  define out where "out = (if carry \<noteq> 0 then ds @ [carry] else ds)"
  have om: "mag out = 2 * mag (digits n)" using lm ll by (auto simp: out_def mag_snoc)
  have r: "sign n \<noteq> 0 \<Longrightarrow> digits (bi_shift_left_one n) = out \<and> sign (bi_shift_left_one n) = sign n"
    using l by (auto simp: bi_shift_left_one_def out_def Let_def)
  have z: "sign n = 0 \<Longrightarrow> bi_shift_left_one n = n" by (simp add: bi_shift_left_one_def)
  show "mag (digits (bi_shift_left_one n)) = 2 * mag (digits n)"
    using r z om assms by (cases "sign n = 0") auto
  show "sign (bi_shift_left_one n) = sign n"
    using r z by (cases "sign n = 0") auto
  show "digits n \<noteq> [] \<longrightarrow> digits (bi_shift_left_one n) \<noteq> []"
    using r z ll by (cases "sign n = 0") (auto simp: out_def)
  show "length (digits n) \<le> length (digits (bi_shift_left_one n))"
    using r z ll by (cases "sign n = 0") (auto simp: out_def)
qed

subsection \<open>Signed addition and negation\<close>

lemma bi_copy_id [simp]: "bi_copy a = a"
  by (simp add: bi_copy_def)

lemma bi_add_abs_props:
  assumes "normalized a" "normalized b"
  shows "mag (digits (bi_add_abs a b)) = mag (digits a) + mag (digits b)"
    and "trimmed (digits (bi_add_abs a b))"
proof -
  from assms have ne: "digits a \<noteq> []" "digits b \<noteq> []" by (simp_all add: normalized_digits_nonempty)
  show "mag (digits (bi_add_abs a b)) = mag (digits a) + mag (digits b)"
    using ne by (simp add: bi_add_abs_def bi_add_into_abs_props)
  show "trimmed (digits (bi_add_abs a b))"
    using ne by (simp add: bi_add_abs_def bi_add_into_abs_props)
qed

lemma bi_sub_abs_props:
  assumes "normalized a" "normalized b" "mag (digits b) < mag (digits a)"
  shows "mag (digits (bi_sub_abs a b)) = mag (digits a) - mag (digits b)"
    and "trimmed (digits (bi_sub_abs a b))"
proof -
  from assms have ne: "digits a \<noteq> []" by (simp add: normalized_digits_nonempty)
  from assms have t: "trimmed (digits a)" "trimmed (digits b)" by (simp_all add: normalized_trimmed)
  from assms(3) have le: "mag (digits b) \<le> mag (digits a)" by simp
  from trimmed_length_le [OF t(2) t(1) le] have len: "length (digits b) \<le> length (digits a)" .
  show "mag (digits (bi_sub_abs a b)) = mag (digits a) - mag (digits b)"
    using ne len le by (simp add: bi_sub_abs_def bi_sub_into_abs_props)
  show "trimmed (digits (bi_sub_abs a b))"
    using ne len le by (simp add: bi_sub_abs_def bi_sub_into_abs_props)
qed

lemma bi_add_correct:
  assumes "normalized a" "normalized b"
  shows "normalized (bi_add a b)" and "bi_val (bi_add a b) = bi_val a + bi_val b"
proof -
  note t = normalized_trimmed [OF assms(1)] normalized_trimmed [OF assms(2)]
  note cmp = bi_compare_abs_mag [OF t]
  note za = normalized_sign_zero [OF assms(1)] and zb = normalized_sign_zero [OF assms(2)]
  note sa = normalized_sign_cases [OF assms(1)] and sb = normalized_sign_cases [OF assms(2)]
  have both: "normalized (bi_add a b) \<and> bi_val (bi_add a b) = bi_val a + bi_val b"
  proof (cases "sign a = 0 \<or> sign b = 0")
    case True
    with assms za zb show ?thesis by (auto simp: bi_add_def bi_val_def)
  next
    case nz: False
    with za zb have pos: "mag (digits a) \<noteq> 0" "mag (digits b) \<noteq> 0" by simp_all
    from nz sa sb have s1: "sign a = 1 \<or> sign a = - 1" "sign b = 1 \<or> sign b = - 1" by auto
    show ?thesis
    proof (cases "sign a = sign b")
      case True
      let ?r = "(bi_add_abs a b)\<lparr>sign := sign a\<rparr>"
      have "normalized ?r"
        using bi_add_abs_props [OF assms] pos s1 by (intro normalizedI) simp_all
      moreover have "bi_val ?r = bi_val a + bi_val b"
        using bi_add_abs_props [OF assms] True by (simp add: bi_val_def algebra_simps)
      ultimately show ?thesis using nz True by (simp add: bi_add_def)
    next
      case diff: False
      with s1 have opp: "sign b = - sign a" by auto
      show ?thesis
      proof (cases "mag (digits a) = mag (digits b)")
        case True
        with cmp have "bi_compare_abs a b = 0" by simp
        with nz diff have "bi_add a b = bi_create" by (simp add: bi_add_def Let_def)
        moreover have "bi_val a + bi_val b = 0" using True opp by (simp add: bi_val_def)
        ultimately show ?thesis by simp
      next
        case ne: False
        show ?thesis
        proof (cases "mag (digits b) < mag (digits a)")
          case True
          with cmp have c: "bi_compare_abs a b = 1" by simp
          let ?r = "(bi_sub_abs a b)\<lparr>sign := sign a\<rparr>"
          note p = bi_sub_abs_props [OF assms True]
          have "normalized ?r" using p True s1 by (intro normalizedI) simp_all
          moreover have "bi_val ?r = bi_val a + bi_val b"
            using p True opp by (simp add: bi_val_def algebra_simps of_nat_diff)
          ultimately show ?thesis using nz diff c by (simp add: bi_add_def Let_def)
        next
          case False
          with ne have lt: "mag (digits a) < mag (digits b)" by simp
          with cmp have c: "bi_compare_abs a b = - 1" by simp
          let ?r = "(bi_sub_abs b a)\<lparr>sign := sign b\<rparr>"
          note p = bi_sub_abs_props [OF assms(2) assms(1) lt]
          have "normalized ?r" using p lt s1 by (intro normalizedI) simp_all
          moreover have "bi_val ?r = bi_val a + bi_val b"
            using p lt opp by (simp add: bi_val_def algebra_simps of_nat_diff)
          ultimately show ?thesis using nz diff c by (simp add: bi_add_def Let_def)
        qed
      qed
    qed
  qed
  from both show "normalized (bi_add a b)" by simp
  from both show "bi_val (bi_add a b) = bi_val a + bi_val b" by simp
qed

lemma bi_negate_correct:
  assumes "normalized a"
  shows "normalized (bi_negate a)" and "bi_val (bi_negate a) = - bi_val a"
  using assms by (auto simp: bi_negate_def Let_def normalized_def bi_val_def)

lemma bi_sub_correct:
  assumes "normalized a" "normalized b"
  shows "normalized (bi_sub a b)" and "bi_val (bi_sub a b) = bi_val a - bi_val b"
  using bi_add_correct [OF assms(1) bi_negate_correct(1) [OF assms(2)]]
    bi_negate_correct(2) [OF assms(2)]
  by (simp_all add: bi_sub_def)

subsection \<open>Multiplication\<close>

lemma mod_combine_nat:
  fixes a y :: nat
  assumes "a < B"
  shows "(a + B * y) mod (B * M) = a + B * (y mod M)"
proof -
  have "(a + B * y) mod (B * M) = B * ((a + B * y) div B mod M) + (a + B * y) mod B"
    by (rule mod_mult2_eq)
  with assms show ?thesis by simp
qed

lemma limb_step:
  fixes x :: u64
  shows "unat (ucast x :: u32) + 2 ^ 32 * ((t + unat (drop_bit 32 x)) mod M)
           = (unat x + 2 ^ 32 * t) mod (2 ^ 32 * M)"
proof -
  have lt: "unat (ucast x :: u32) < 2 ^ 32" by (rule unat_u32_bound)
  have "unat (ucast x :: u32) + 2 ^ 32 * ((t + unat (drop_bit 32 x)) mod M)
          = (unat (ucast x :: u32) + 2 ^ 32 * (t + unat (drop_bit 32 x))) mod (2 ^ 32 * M)"
    using lt by (rule mod_combine_nat [symmetric])
  also have "unat (ucast x :: u32) + 2 ^ 32 * (t + unat (drop_bit 32 x)) = unat x + 2 ^ 32 * t"
    using split_u64 [of x] by (simp add: algebra_simps)
  finally show ?thesis .
qed

lemma mul_ripple_mag:
  "unat ripple < 2 ^ 32 \<Longrightarrow>
     mag (mul_ripple rs ripple) = (mag rs + unat ripple) mod 2 ^ (32 * length rs)
     \<and> length (mul_ripple rs ripple) = length rs"
proof (induction rs arbitrary: ripple)
  case Nil
  then show ?case by simp
next
  case (Cons r rs)
  show ?case
  proof (cases "ripple > 0")
    case False
    then have "ripple = 0" by (simp add: word_neq_0_conv [symmetric])
    with mag_bound [of "r # rs"] show ?thesis by simp
  next
    case True
    let ?sum = "ucast r + ripple :: u64"
    have s: "unat ?sum = unat r + unat ripple" using unat_add3 [of ripple r 0] Cons.prems by simp
    with unat_u32_bound [of r] Cons.prems have "unat ?sum < 2 ^ 32 * 2 ^ 32" by simp
    then have c: "unat (drop_bit 32 ?sum) < 2 ^ 32" by (rule carry_lt)
    from Cons.IH [OF c] have ih:
      "mag (mul_ripple rs (drop_bit 32 ?sum)) = (mag rs + unat (drop_bit 32 ?sum)) mod 2 ^ (32 * length rs)"
      "length (mul_ripple rs (drop_bit 32 ?sum)) = length rs" by simp_all
    have "mag (mul_ripple (r # rs) ripple)
            = unat (ucast ?sum :: u32) + 2 ^ 32 * ((mag rs + unat (drop_bit 32 ?sum)) mod 2 ^ (32 * length rs))"
      using True ih by (simp add: Let_def)
    also have "\<dots> = (unat ?sum + 2 ^ 32 * mag rs) mod (2 ^ 32 * 2 ^ (32 * length rs))"
      by (rule limb_step)
    finally show ?thesis using True ih s by (simp add: Let_def algebra_simps power_add)
  qed
qed

lemma mul_inner_mag:
  "unat carry < 2 ^ 32 \<Longrightarrow>
     mag (mul_inner ai bs rs carry) = (unat ai * mag bs + mag rs + unat carry) mod 2 ^ (32 * length rs)
     \<and> length (mul_inner ai bs rs carry) = length rs"
proof (induction ai bs rs carry rule: mul_inner.induct)
  case (1 ai carry)
  then show ?case by simp
next
  case (2 ai r rs carry)
  show ?case
  proof (cases "carry = 0")
    case True
    with mag_bound [of "r # rs"] show ?thesis by simp
  next
    case False
    let ?sum = "ucast r + carry :: u64"
    have s: "unat ?sum = unat r + unat carry" using unat_add3 [of carry r 0] "2.prems" by simp
    with unat_u32_bound [of r] "2.prems" have "unat ?sum < 2 ^ 32 * 2 ^ 32" by simp
    then have c: "unat (drop_bit 32 ?sum) < 2 ^ 32" by (rule carry_lt)
    note rp = mul_ripple_mag [OF c, of rs]
    have "mag (mul_inner ai [] (r # rs) carry)
            = unat (ucast ?sum :: u32) + 2 ^ 32 * ((mag rs + unat (drop_bit 32 ?sum)) mod 2 ^ (32 * length rs))"
      using False rp by (simp add: Let_def)
    also have "\<dots> = (unat ?sum + 2 ^ 32 * mag rs) mod (2 ^ 32 * 2 ^ (32 * length rs))"
      by (rule limb_step)
    finally show ?thesis using False rp s by (simp add: Let_def algebra_simps power_add)
  qed
next
  case (3 ai bj bs carry)
  then show ?case by simp
next
  case (4 ai bj bs r rs carry)
  let ?cur = "ucast ai * ucast bj + ucast r + carry :: u64"
  have s: "unat ?cur = unat ai * unat bj + unat r + unat carry"
    using "4.prems" by (rule unat_mul_add)
  have "unat ?cur < 2 ^ 32 * 2 ^ 32" using unat_u64_bound [of ?cur] by simp
  then have c: "unat (drop_bit 32 ?cur) < 2 ^ 32" by (rule carry_lt)
  from "4.IH" [OF refl c] have ih:
    "mag (mul_inner ai bs rs (drop_bit 32 ?cur))
       = (unat ai * mag bs + mag rs + unat (drop_bit 32 ?cur)) mod 2 ^ (32 * length rs)"
    "length (mul_inner ai bs rs (drop_bit 32 ?cur)) = length rs" by simp_all
  have "mag (mul_inner ai (bj # bs) (r # rs) carry)
          = unat (ucast ?cur :: u32)
            + 2 ^ 32 * ((unat ai * mag bs + mag rs + unat (drop_bit 32 ?cur)) mod 2 ^ (32 * length rs))"
    using ih by (simp add: Let_def)
  also have "\<dots> = (unat ?cur + 2 ^ 32 * (unat ai * mag bs + mag rs)) mod (2 ^ 32 * 2 ^ (32 * length rs))"
    by (rule limb_step)
  also have "unat ?cur + 2 ^ 32 * (unat ai * mag bs + mag rs)
          = unat ai * mag (bj # bs) + mag (r # rs) + unat carry"
    unfolding s by (simp add: algebra_simps)
  finally show ?case using ih by (simp add: Let_def power_add)
qed

lemma mul_outer_mag:
  "mag (mul_outer as b rs) = (mag as * mag b + mag rs) mod 2 ^ (32 * length rs)
   \<and> length (mul_outer as b rs) = length rs"
proof (induction as arbitrary: rs)
  case Nil
  with mag_bound [of rs] show ?case by simp
next
  case (Cons ai as)
  have "unat (0 :: u64) < 2 ^ 32" by simp
  from mul_inner_mag [OF this, of ai b rs] have inner:
    "mag (mul_inner ai b rs 0) = (unat ai * mag b + mag rs) mod 2 ^ (32 * length rs)"
    "length (mul_inner ai b rs 0) = length rs" by simp_all
  show ?case
  proof (cases "mul_inner ai b rs 0")
    case Nil
    with inner have "rs = []" by simp
    with Nil show ?thesis by simp
  next
    case (Cons r rs')
    with inner have len: "length rs = Suc (length rs')" by simp
    from Cons.IH [of rs'] have ih:
      "mag (mul_outer as b rs') = (mag as * mag b + mag rs') mod 2 ^ (32 * length rs')"
      "length (mul_outer as b rs') = length rs'" by simp_all
    have r: "unat r < 2 ^ 32" by (rule unat_u32_bound)
    have "mag (mul_outer (ai # as) b rs)
            = unat r + 2 ^ 32 * ((mag as * mag b + mag rs') mod 2 ^ (32 * length rs'))"
      using Cons ih by simp
    also have "\<dots> = (unat r + 2 ^ 32 * (mag as * mag b + mag rs')) mod (2 ^ 32 * 2 ^ (32 * length rs'))"
      using r by (rule mod_combine_nat [symmetric])
    also have "unat r + 2 ^ 32 * (mag as * mag b + mag rs')
            = mag (mul_inner ai b rs 0) + 2 ^ 32 * (mag as * mag b)"
      using Cons by (simp add: algebra_simps)
    also have "2 ^ 32 * 2 ^ (32 * length rs') = (2::nat) ^ (32 * length rs)"
      using len by (simp add: power_add)
    also have "(mag (mul_inner ai b rs 0) + 2 ^ 32 * (mag as * mag b)) mod 2 ^ (32 * length rs)
            = (unat ai * mag b + mag rs + 2 ^ 32 * (mag as * mag b)) mod 2 ^ (32 * length rs)"
      unfolding inner(1) by (rule mod_add_left_eq)
    also have "unat ai * mag b + mag rs + 2 ^ 32 * (mag as * mag b) = mag (ai # as) * mag b + mag rs"
      by (simp add: algebra_simps)
    finally show ?thesis using Cons ih len by simp
  qed
qed

lemma bi_mul_correct:
  assumes "normalized a" "normalized b"
  shows "normalized (bi_mul a b)" and "bi_val (bi_mul a b) = bi_val a * bi_val b"
proof -
  note za = normalized_sign_zero [OF assms(1)] and zb = normalized_sign_zero [OF assms(2)]
  note sa = normalized_sign_cases [OF assms(1)] and sb = normalized_sign_cases [OF assms(2)]
  have both: "normalized (bi_mul a b) \<and> bi_val (bi_mul a b) = bi_val a * bi_val b"
  proof (cases "sign a = 0 \<or> sign b = 0")
    case True
    then have "bi_mul a b = bi_create" by (simp add: bi_mul_def)
    moreover from True have "bi_val a * bi_val b = 0" by (auto simp: bi_val_def)
    ultimately show ?thesis by simp
  next
    case False
    define total_len where "total_len = length (digits a) + length (digits b)"
    define ds where "ds = mul_outer (digits a) (digits b) (replicate total_len 0)"
    define s :: int where "s = (if sign a = sign b then 1 else - 1)"
    have "mag (digits a) * mag (digits b) < 2 ^ (32 * length (digits a)) * 2 ^ (32 * length (digits b))"
      using mag_bound [of "digits a"] mag_bound [of "digits b"] by (rule mult_strict_mono) simp_all
    then have bound: "mag (digits a) * mag (digits b) < 2 ^ (32 * total_len)"
      by (simp add: total_len_def power_add algebra_simps)
    from mul_outer_mag [of "digits a" "digits b" "replicate total_len 0"] bound
    have m: "mag ds = mag (digits a) * mag (digits b)" and l: "length ds = total_len"
      by (simp_all add: ds_def)
    from assms have "digits a \<noteq> []" by (simp add: normalized_digits_nonempty)
    with l have ne: "ds \<noteq> []" by (auto simp: total_len_def)
    from False za zb have pos: "mag ds \<noteq> 0" unfolding m by simp
    have eq: "bi_mul a b = bi_normalize ((bi_resize bi_create total_len)\<lparr>digits := ds, sign := s\<rparr>)"
      using False by (simp add: bi_mul_def Let_def total_len_def ds_def s_def)
    have s1: "s = 1 \<or> s = - 1" by (simp add: s_def)
    have "normalized (bi_mul a b)"
      unfolding eq using ne s1 pos by (intro normalized_bi_normalize) auto
    moreover have "bi_val (bi_mul a b) = s * int (mag ds)"
      unfolding eq using ne pos by (simp add: bi_val_def sign_bi_normalize)
    moreover have "s * int (mag ds) = bi_val a * bi_val b"
      using False sa sb unfolding m by (auto simp: bi_val_def s_def)
    ultimately show ?thesis by simp
  qed
  from both show "normalized (bi_mul a b)" by simp
  from both show "bi_val (bi_mul a b) = bi_val a * bi_val b" by simp
qed

subsection \<open>Bits of a magnitude\<close>

lemma unat_power2_u32: "b < 32 \<Longrightarrow> unat (2 ^ b :: u32) = 2 ^ b"
proof -
  assume b: "b < 32"
  then have lt: "(2::nat) ^ b < 2 ^ 32" by (intro power_strict_increasing) simp_all
  have "(2 ^ b :: u32) = word_of_nat (2 ^ b)" by simp
  then have "unat (2 ^ b :: u32) = 2 ^ b mod 2 ^ 32" by (simp only: unat_of_nat) simp
  with lt show ?thesis by simp
qed

lemma uint_low_bit: "uint (drop_bit k (w::u32) AND 1) = (if bit w k then 1 else 0)"
proof -
  have "drop_bit k w AND 1 = (if bit w k then 1 else 0)"
    by (simp add: and_one_eq bit_iff_odd_drop_bit mod_2_eq_odd)
  then show ?thesis by simp
qed

lemma bit_unat_u32: "b < 32 \<Longrightarrow> bit (unat (d :: u32)) b = bit d b"
  by (simp add: bit_unsigned_iff)

lemma mag_bit: "idx < length ds \<Longrightarrow> b < 32 \<Longrightarrow> bit (mag ds) (32 * idx + b) = bit (ds ! idx) b"
proof (induction ds arbitrary: idx)
  case Nil
  then show ?case by simp
next
  case (Cons d ds)
  have d: "unat d < 2 ^ 32" by (rule unat_u32_bound)
  show ?case
  proof (cases idx)
    case 0
    have "bit (take_bit 32 (unat d + 2 ^ 32 * mag ds)) b = bit (unat d + 2 ^ 32 * mag ds) b"
      using Cons.prems(2) by (simp add: bit_take_bit_iff)
    moreover have "take_bit 32 (unat d + 2 ^ 32 * mag ds) = unat d"
      using d by (simp add: take_bit_eq_mod)
    ultimately show ?thesis using 0 Cons.prems(2) by (simp add: bit_unat_u32)
  next
    case (Suc j)
    have "bit (drop_bit 32 (unat d + 2 ^ 32 * mag ds)) (32 * j + b)
            = bit (unat d + 2 ^ 32 * mag ds) (32 + (32 * j + b))"
      by (simp add: bit_drop_bit_eq)
    moreover have "drop_bit 32 (unat d + 2 ^ 32 * mag ds) = mag ds"
      using d by (simp add: drop_bit_eq_div)
    ultimately have "bit (mag (d # ds)) (32 * idx + b) = bit (mag ds) (32 * j + b)"
      using Suc by (simp add: algebra_simps)
    with Cons.IH [of j] Cons.prems Suc show ?thesis by simp
  qed
qed

lemma bit_ge_power: "bit (n :: nat) i \<Longrightarrow> 2 ^ i \<le> n"
proof (rule ccontr)
  assume b: "bit n i" and "\<not> 2 ^ i \<le> n"
  then have "n div 2 ^ i = 0" by simp
  with b show False by (simp add: bit_iff_odd)
qed

lemma bi_get_bit_mag: "bi_get_bit a i = (if bit (mag (digits a)) i then 1 else 0)"
proof (cases "i div 32 < length (digits a)")
  case True
  have i: "i = 32 * (i div 32) + i mod 32" by simp
  have lt: "i mod 32 < 32" by simp
  have "bit (mag (digits a)) (32 * (i div 32) + i mod 32) = bit (digits a ! (i div 32)) (i mod 32)"
    using True lt by (rule mag_bit)
  then have b: "bit (mag (digits a)) i = bit (digits a ! (i div 32)) (i mod 32)" by simp
  have "uint (drop_bit (i mod 32) (digits a ! (i div 32)) AND 1)
          = (if bit (digits a ! (i div 32)) (i mod 32) then 1 else 0)"
    by (rule uint_low_bit)
  with True b show ?thesis by (simp add: bi_get_bit_def Let_def BITS_IN_WORD_def)
next
  case False
  then have "length (digits a) \<le> i div 32" by simp
  then have "32 * length (digits a) \<le> i" by simp
  then have "(2::nat) ^ (32 * length (digits a)) \<le> 2 ^ i" by (intro power_increasing) simp_all
  with mag_bound [of "digits a"] have "mag (digits a) < 2 ^ i" by (rule less_le_trans)
  then have "\<not> bit (mag (digits a)) i" using bit_ge_power [of "mag (digits a)" i] by auto
  with False show ?thesis by (simp add: bi_get_bit_def Let_def BITS_IN_WORD_def)
qed

lemma mag_list_update:
  "idx < length ds \<Longrightarrow>
     mag (ds[idx := v]) + 2 ^ (32 * idx) * unat (ds ! idx) = mag ds + 2 ^ (32 * idx) * unat v"
proof (induction ds arbitrary: idx)
  case Nil
  then show ?case by simp
next
  case (Cons d ds)
  show ?case
  proof (cases idx)
    case 0
    then show ?thesis by simp
  next
    case (Suc j)
    with Cons.prems have "j < length ds" by simp
    from Cons.IH [OF this] have
      "2 ^ 32 * (mag (ds[j := v]) + 2 ^ (32 * j) * unat (ds ! j))
         = 2 ^ 32 * (mag ds + 2 ^ (32 * j) * unat v)" by simp
    with Suc show ?thesis by (simp add: algebra_simps power_add)
  qed
qed

lemma nat_or_power: "\<not> bit (n :: nat) b \<Longrightarrow> n OR 2 ^ b = n + 2 ^ b"
proof -
  assume nb: "\<not> bit n b"
  have "n + 2 ^ b = n OR 2 ^ b"
  proof (rule disjunctive_add)
    fix k
    show "\<not> bit n k \<or> \<not> bit ((2::nat) ^ b) k" using nb by (auto simp: bit_exp_iff)
  qed
  then show ?thesis by simp
qed

lemma unat_or_bit:
  "b < 32 \<Longrightarrow> \<not> bit (d :: u32) b \<Longrightarrow> unat (d OR push_bit b 1) = unat d + 2 ^ b"
proof -
  assume b: "b < 32" and nb: "\<not> bit d b"
  have p: "unat (push_bit b 1 :: u32) = 2 ^ b"
    using unat_power2_u32 [OF b] by simp
  from nb b have "\<not> bit (unat d) b" by (simp add: bit_unat_u32)
  then have "unat d OR 2 ^ b = unat d + 2 ^ b" by (rule nat_or_power)
  then show ?thesis by (simp add: unsigned_or_eq unat_power2_u32 [OF b])
qed

lemma mag_set_bit:
  assumes "idx < length ds" "b < 32" "\<not> bit (mag ds) (32 * idx + b)"
  shows "mag (ds[idx := ds ! idx OR push_bit b 1]) = mag ds + 2 ^ (32 * idx + b)"
proof -
  from assms have "\<not> bit (ds ! idx) b" by (simp add: mag_bit)
  with assms(2) have u: "unat (ds ! idx OR push_bit b 1) = unat (ds ! idx) + 2 ^ b"
    by (rule unat_or_bit)
  from mag_list_update [OF assms(1), of "ds ! idx OR push_bit b 1"] show ?thesis
    unfolding u by (simp add: algebra_simps power_add)
qed

lemma quotient_set_bit_props:
  assumes "\<not> bit (mag (digits q)) i"
  shows "mag (digits (quotient_set_bit q i)) = mag (digits q) + 2 ^ i"
    and "sign (quotient_set_bit q i) = 1"
    and "digits (quotient_set_bit q i) \<noteq> []"
proof -
  define idx where "idx = i div 32"
  define ds where "ds = (if length (digits q) \<le> idx
                then digits q @ replicate (idx + 1 - length (digits q)) 0 else digits q)"
  have m: "mag ds = mag (digits q)" by (simp add: ds_def mag_append)
  have l: "idx < length ds" by (auto simp: ds_def)
  have i: "32 * idx + i mod 32 = i" by (simp add: idx_def)
  have eq: "digits (quotient_set_bit q i) = ds[idx := ds ! idx OR push_bit (i mod 32) 1]"
    by (simp add: quotient_set_bit_def Let_def BITS_IN_WORD_def idx_def ds_def)
  have "mag (ds[idx := ds ! idx OR push_bit (i mod 32) 1]) = mag ds + 2 ^ (32 * idx + i mod 32)"
    using l assms by (intro mag_set_bit) (simp_all add: m i)
  then show "mag (digits (quotient_set_bit q i)) = mag (digits q) + 2 ^ i"
    unfolding eq m i .
  show "sign (quotient_set_bit q i) = 1" by (simp add: quotient_set_bit_def Let_def)
  show "digits (quotient_set_bit q i) \<noteq> []" unfolding eq using l by auto
qed

lemma bit_length_loop_bound:
  "unat d < 2 ^ (bit_length_loop d bits - bits) \<and> bits \<le> bit_length_loop d bits"
proof (induction d bits rule: bit_length_loop.induct)
  case (1 d bits)
  show ?case
  proof (cases "d > 0")
    case False
    then have "d = 0" by (simp add: word_neq_0_conv [symmetric])
    then show ?thesis by (simp add: bit_length_loop.simps [of 0])
  next
    case True
    define L where "L = bit_length_loop (drop_bit 1 d) (bits + 1)"
    from "1.IH" [OF True] have ih: "unat (drop_bit 1 d) < 2 ^ (L - (bits + 1))" "bits + 1 \<le> L"
      by (simp_all add: L_def)
    have e: "bit_length_loop d bits = L" using True by (simp add: bit_length_loop.simps [of d] L_def)
    have h: "unat (drop_bit 1 d) = unat d div 2"
      by (simp add: unat_drop_bit_eq drop_bit_eq_div unat_div)
    have "unat d < 2 * (unat d div 2 + 1)" by simp
    also have "\<dots> \<le> 2 * 2 ^ (L - (bits + 1))" using ih(1) unfolding h by simp
    also have "\<dots> = 2 ^ (L - bits)" using ih(2)
      by (metis Suc_diff_Suc Suc_eq_plus1 Suc_le_lessD power_Suc)
    finally show ?thesis using ih(2) e by simp
  qed
qed

lemma bi_bit_length_bound:
  assumes "digits a \<noteq> []" "sign a \<noteq> 0"
  shows "mag (digits a) < 2 ^ bi_bit_length a"
proof -
  define n where "n = length (digits a) - 1"
  define d where "d = digits a ! n"
  define L where "L = bit_length_loop d (n * 32)"
  from assms(1) have ds: "digits a = butlast (digits a) @ [d]"
    unfolding d_def n_def by (metis append_butlast_last_id last_conv_nth)
  have lb: "length (butlast (digits a)) = n" by (simp add: n_def)
  have "mag (butlast (digits a) @ [d]) = mag (butlast (digits a)) + 2 ^ (32 * n) * unat d"
    by (simp only: mag_snoc lb)
  with ds have "mag (digits a) = mag (butlast (digits a)) + 2 ^ (32 * n) * unat d"
    by simp
  moreover have "mag (butlast (digits a)) < 2 ^ (32 * n)"
    using mag_bound [of "butlast (digits a)"] by (simp only: lb)
  ultimately have "mag (digits a) < 2 ^ (32 * n) * (unat d + 1)" by simp
  moreover from bit_length_loop_bound [of d "n * 32"] have
    b: "unat d + 1 \<le> 2 ^ (L - n * 32)" "n * 32 \<le> L" by (simp_all add: L_def)
  then have "2 ^ (32 * n) * (unat d + 1) \<le> (2::nat) ^ (32 * n) * 2 ^ (L - n * 32)"
    by (intro mult_le_mono2)
  moreover have "(2::nat) ^ (32 * n) * 2 ^ (L - n * 32) = 2 ^ L"
    using b(2) by (simp add: power_add [symmetric] mult.commute)
  ultimately have "mag (digits a) < 2 ^ L" by simp
  moreover have "bi_bit_length a = L"
    using assms(2) by (simp add: bi_bit_length_def L_def d_def n_def BITS_IN_WORD_def)
  ultimately show ?thesis by simp
qed

subsection \<open>Long division\<close>

definition quotient_ok :: "BigInt \<Rightarrow> bool" where
  "quotient_ok q = (digits q \<noteq> [] \<and> (sign q = 0 \<or> sign q = 1)
     \<and> (sign q = 0 \<longrightarrow> mag (digits q) = 0))"

lemma mag_or_one:
  assumes "ds \<noteq> []" "even (mag ds)"
  shows "mag (ds[0 := ds ! 0 OR 1]) = mag ds + 1"
proof -
  from assms(1) obtain d ds' where ds: "ds = d # ds'" by (cases ds) auto
  with assms(2) have "even (unat d)" by simp
  then have "unat d OR 1 = unat d + 1" by (rule even_or_one)
  then have "unat (d OR 1) = unat d + 1" by (simp add: unsigned_or_eq)
  with ds show ?thesis by simp
qed

lemma remainder_step:
  fixes a r :: BigInt and i :: nat
  assumes "normalized r" "0 \<le> sign r"
  defines "r1 \<equiv> bi_shift_left_one r"
  defines "r2 \<equiv> (if bi_get_bit a i \<noteq> 0
                then r1\<lparr>digits := (digits r1)[0 := digits r1 ! 0 OR 1], sign := 1\<rparr> else r1)"
  defines "r3 \<equiv> bi_normalize r2"
  shows "mag (digits r3) = 2 * mag (digits r) + (if bit (mag (digits a)) i then 1 else 0)"
    and "normalized r3" and "0 \<le> sign r3"
proof -
  from assms(1) have z: "sign r = 0 \<longleftrightarrow> mag (digits r) = 0" by (rule normalized_sign_zero)
  from assms(1,2) have s: "sign r = 0 \<or> sign r = 1" using normalized_sign_cases [of r] by auto
  from assms(1) have ne: "digits r \<noteq> []" by (rule normalized_digits_nonempty)
  from z have pre: "sign r = 0 \<longrightarrow> mag (digits r) = 0" by simp
  note sh = bi_shift_left_one_props [OF pre, folded r1_def]
  from sh(3) ne have ne1: "digits r1 \<noteq> []" by simp
  have ev: "even (mag (digits r1))" unfolding sh(1) by simp
  have gb: "bi_get_bit a i \<noteq> 0 \<longleftrightarrow> bit (mag (digits a)) i" by (simp add: bi_get_bit_mag)
  have m2: "mag (digits r2) = 2 * mag (digits r) + (if bit (mag (digits a)) i then 1 else 0)"
    using mag_or_one [OF ne1 ev] sh(1) gb by (simp add: r2_def)
  have ne2: "digits r2 \<noteq> []" using ne1 by (auto simp: r2_def)
  have s2: "sign r2 = (if bit (mag (digits a)) i then 1 else sign r)"
    using sh(2) gb by (simp add: r2_def)
  show "mag (digits r3) = 2 * mag (digits r) + (if bit (mag (digits a)) i then 1 else 0)"
    using m2 by (simp add: r3_def)
  show "normalized r3"
    unfolding r3_def using ne2 s2 s z m2 by (intro normalized_bi_normalize) auto
  show "0 \<le> sign r3"
    unfolding r3_def using ne2 s2 s by (auto simp: sign_bi_normalize)
qed

lemma div_bit_step: "(A :: nat) div 2 ^ i = 2 * (A div 2 ^ Suc i) + (if bit A i then 1 else 0)"
proof -
  have "A div 2 ^ Suc i = (A div 2 ^ i) div 2" by (metis div_mult2_eq power_Suc2)
  moreover have "(A div 2 ^ i) mod 2 = (if bit A i then 1 else 0)"
    by (simp add: bit_iff_odd mod_2_eq_odd)
  moreover have "A div 2 ^ i = 2 * ((A div 2 ^ i) div 2) + (A div 2 ^ i) mod 2" by simp
  ultimately show ?thesis by presburger
qed

lemma not_bit_multiple: "\<not> bit (Q * 2 ^ Suc i :: nat) i"
proof -
  have "Q * 2 ^ Suc i div 2 ^ i = Q * 2" by simp
  then show ?thesis by (simp add: bit_iff_odd)
qed

lemma div_mod_loop_correct:
  assumes "normalized b" "sign b \<noteq> 0"
  shows "normalized r \<Longrightarrow> 0 \<le> sign r \<Longrightarrow> quotient_ok q \<Longrightarrow>
     mag (digits q) = Q * 2 ^ k \<Longrightarrow>
     mag (digits a) div 2 ^ k = Q * mag (digits b) + mag (digits r) \<Longrightarrow>
     mag (digits r) < mag (digits b) \<Longrightarrow>
     div_mod_loop a b k q r = (q', r') \<Longrightarrow>
     mag (digits q') = mag (digits a) div mag (digits b)
     \<and> mag (digits r') = mag (digits a) mod mag (digits b)
     \<and> normalized r' \<and> 0 \<le> sign r' \<and> quotient_ok q'"
proof (induction k arbitrary: q r Q)
  case 0
  then have eq: "q' = q" "r' = r" by simp_all
  from 0 have a: "mag (digits a) = mag (digits q) * mag (digits b) + mag (digits r)" by simp
  from 0(6) have "(mag (digits q) * mag (digits b) + mag (digits r)) div mag (digits b) = mag (digits q)"
    by simp
  moreover from 0(6) have
    "(mag (digits q) * mag (digits b) + mag (digits r)) mod mag (digits b) = mag (digits r)"
    by simp
  ultimately show ?case using 0 eq a by simp
next
  case (Suc i)
  define r3 where "r3 = bi_normalize
     (if bi_get_bit a i \<noteq> 0
      then (bi_shift_left_one r)
             \<lparr>digits := (digits (bi_shift_left_one r))[0 := digits (bi_shift_left_one r) ! 0 OR 1],
              sign := 1\<rparr>
      else bi_shift_left_one r)"
  define bt :: nat where "bt = (if bit (mag (digits a)) i then 1 else 0)"
  note rs = remainder_step [OF Suc.prems(1,2), of a i, folded r3_def bt_def]
  have adiv: "mag (digits a) div 2 ^ i = 2 * Q * mag (digits b) + mag (digits r3)"
    using div_bit_step [of "mag (digits a)" i] Suc.prems(5) rs(1)
    by (simp add: bt_def algebra_simps)
  have r3lt: "mag (digits r3) < 2 * mag (digits b)"
    using rs(1) Suc.prems(6) by (simp add: bt_def)
  note t = normalized_trimmed [OF rs(2)] normalized_trimmed [OF assms(1)]
  note cmp = bi_compare_abs_mag [OF t]
  show ?case
  proof (cases "bi_compare_abs r3 b \<ge> 0")
    case True
    with cmp have ge: "mag (digits b) \<le> mag (digits r3)" by (auto split: if_splits)
    from True have len: "length (digits b) \<le> length (digits r3)" by (rule bi_compare_abs_length)
    from rs(2) have ne: "digits r3 \<noteq> []" by (rule normalized_digits_nonempty)
    note sp = bi_sub_into_abs_props [OF ne len ge]
    define r4 where "r4 = bi_sub_into_abs r3 b"
    define q4 where "q4 = quotient_set_bit q i"
    from rs(2,3) have s3: "sign r3 = 0 \<or> sign r3 = 1" using normalized_sign_cases [of r3] by auto
    have z3: "sign r3 = 0 \<longleftrightarrow> mag (digits r3) = 0" using rs(2) by (rule normalized_sign_zero)
    have n4: "normalized r4"
    proof (cases "mag (digits r3) = mag (digits b)")
      case True
      with sp have "mag (digits r4) = 0" "trimmed (digits r4)" "sign r4 = 0" by (simp_all add: r4_def)
      then show ?thesis using trimmed_zero [of "digits r4"] by (simp add: normalized_def)
    next
      case False
      with ge have lt: "mag (digits b) < mag (digits r3)" by simp
      then have "mag (digits r3) \<noteq> 0" by simp
      with z3 s3 have "sign r3 = 1" by auto
      with sp False lt show ?thesis unfolding r4_def by (intro normalizedI) simp_all
    qed
    have sg4: "0 \<le> sign r4" using sp(3) s3 by (auto simp: r4_def)
    have nb: "\<not> bit (mag (digits q)) i" unfolding Suc.prems(4) by (rule not_bit_multiple)
    note qp = quotient_set_bit_props [OF nb, folded q4_def]
    have qok: "quotient_ok q4" using qp by (simp add: quotient_ok_def)
    have mq: "mag (digits q4) = (2 * Q + 1) * 2 ^ i" using qp(1) Suc.prems(4) by (simp add: algebra_simps)
    have ad: "mag (digits a) div 2 ^ i = (2 * Q + 1) * mag (digits b) + mag (digits r4)"
      using adiv sp(1) ge by (simp add: r4_def algebra_simps)
    have lt: "mag (digits r4) < mag (digits b)" using sp(1) r3lt ge by (simp add: r4_def)
    have run: "div_mod_loop a b i q4 r4 = (q', r')"
      using Suc.prems(7) True by (simp add: Let_def r3_def r4_def q4_def)
    from Suc.IH [OF n4 sg4 qok mq ad lt run] show ?thesis .
  next
    case False
    with cmp have lt: "mag (digits r3) < mag (digits b)" by (auto split: if_splits)
    have mq: "mag (digits q) = (2 * Q) * 2 ^ i" using Suc.prems(4) by (simp add: algebra_simps)
    have ad: "mag (digits a) div 2 ^ i = (2 * Q) * mag (digits b) + mag (digits r3)"
      using adiv by simp
    have run: "div_mod_loop a b i q r3 = (q', r')"
      using Suc.prems(7) False by (simp add: Let_def r3_def)
    from Suc.IH [OF rs(2,3) Suc.prems(3) mq ad lt run] show ?thesis .
  qed
qed

lemma bi_div_mod_abs_correct:
  assumes "normalized a" "normalized b" "sign b \<noteq> 0"
  shows "\<exists>q r. bi_div_mod_abs a b = Some (q, r)
           \<and> mag (digits q) = mag (digits a) div mag (digits b)
           \<and> mag (digits r) = mag (digits a) mod mag (digits b)
           \<and> digits q \<noteq> [] \<and> digits r \<noteq> []"
proof -
  note t = normalized_trimmed [OF assms(1)] normalized_trimmed [OF assms(2)]
  note cmp = bi_compare_abs_mag [OF t]
  from assms(2,3) have bpos: "0 < mag (digits b)" using normalized_sign_zero [of b] by simp
  show ?thesis
  proof (cases "bi_compare_abs a b < 0")
    case True
    with cmp have "mag (digits a) < mag (digits b)" by (auto split: if_splits)
    with True assms show ?thesis
      by (simp add: bi_div_mod_abs_def bi_create_def normalized_digits_nonempty)
  next
    case False
    with cmp have ge: "mag (digits b) \<le> mag (digits a)" by (auto split: if_splits)
    with bpos have "mag (digits a) \<noteq> 0" by simp
    with assms(1) have sa: "sign a \<noteq> 0" using normalized_sign_zero [of a] by simp
    from assms(1) have "digits a \<noteq> []" by (rule normalized_digits_nonempty)
    from bi_bit_length_bound [OF this sa] have small: "mag (digits a) div 2 ^ bi_bit_length a = 0"
      by simp
    obtain q r where l: "div_mod_loop a b (bi_bit_length a) bi_create bi_create = (q, r)"
      by (cases "div_mod_loop a b (bi_bit_length a) bi_create bi_create") blast
    have c0: "normalized bi_create" "0 \<le> sign bi_create" "quotient_ok bi_create"
      "mag (digits bi_create) = 0 * 2 ^ bi_bit_length a"
      by (simp_all add: bi_create_def quotient_ok_def normalized_def)
    have c1: "mag (digits a) div 2 ^ bi_bit_length a = 0 * mag (digits b) + mag (digits bi_create)"
      using small by (simp add: bi_create_def)
    have c2: "mag (digits bi_create) < mag (digits b)" using bpos by (simp add: bi_create_def)
    from div_mod_loop_correct [OF assms(2,3) c0 c1 c2 l] have
      r: "mag (digits q) = mag (digits a) div mag (digits b)"
         "mag (digits r) = mag (digits a) mod mag (digits b)"
         "normalized r" "quotient_ok q" by simp_all
    from r(4) have "normalize_loop (digits q) \<noteq> []"
      using trimmed_normalize_loop [of "digits q"] by (auto simp: quotient_ok_def trimmed_def)
    with False assms(3) l r show ?thesis
      by (simp add: bi_div_mod_abs_def normalized_digits_nonempty)
  qed
qed

lemma bi_div_correct:
  assumes "normalized a" "normalized b" "sign b \<noteq> 0"
  shows "\<exists>q. bi_div a b = Some q \<and> normalized q
           \<and> bi_val q = (if sign a = sign b then 1 else - 1)
                          * int (mag (digits a) div mag (digits b))"
proof -
  from bi_div_mod_abs_correct [OF assms] obtain q r where
    dm: "bi_div_mod_abs a b = Some (q, r)"
    and mq: "mag (digits q) = mag (digits a) div mag (digits b)"
    and ne: "digits q \<noteq> []" by blast
  define s :: int where "s = (if sign a = sign b then 1 else - 1)"
  define q' where "q' = bi_normalize (q\<lparr>sign := s\<rparr>)"
  have eq: "bi_div a b = Some q'" using assms(3) dm by (simp add: bi_div_def q'_def s_def)
  have "normalized q'"
    unfolding q'_def using ne by (intro normalized_bi_normalize) (auto simp: s_def)
  moreover have "bi_val q' = s * int (mag (digits q))"
    unfolding q'_def using ne by (simp add: bi_val_def sign_bi_normalize)
  ultimately show ?thesis using eq mq by (simp add: s_def)
qed

lemma bi_mod_correct:
  assumes "normalized a" "normalized b" "sign b \<noteq> 0"
  shows "\<exists>r. bi_mod a b = Some r \<and> normalized r
           \<and> mag (digits r) = mag (digits a) mod mag (digits b)
           \<and> sign r = (if mag (digits a) mod mag (digits b) = 0 then 0 else sign a)"
proof -
  from bi_div_mod_abs_correct [OF assms] obtain q r where
    dm: "bi_div_mod_abs a b = Some (q, r)"
    and mr: "mag (digits r) = mag (digits a) mod mag (digits b)"
    and ne: "digits r \<noteq> []" by blast
  define r' where "r' = bi_normalize (r\<lparr>sign := sign a\<rparr>)"
  have eq: "bi_mod a b = Some r'" using assms(3) dm by (simp add: bi_mod_def r'_def)
  have z: "sign a = 0 \<longrightarrow> mag (digits r) = 0"
    using normalized_sign_zero [OF assms(1)] mr by simp
  have "normalized r'"
    unfolding r'_def using ne z normalized_sign_cases [OF assms(1)]
    by (intro normalized_bi_normalize) auto
  moreover have "mag (digits r') = mag (digits r)" by (simp add: r'_def)
  moreover have "sign r' = (if mag (digits r) = 0 then 0 else sign a)"
    unfolding r'_def using ne by (simp add: sign_bi_normalize)
  ultimately show ?thesis using eq mr by simp
qed

subsection \<open>Parsers, power and factorial keep the normalized form\<close>

lemma normalized_iff:
  "normalized n \<longleftrightarrow>
     trimmed (digits n)
     \<and> ((sign n = 0 \<and> mag (digits n) = 0) \<or> ((sign n = 1 \<or> sign n = - 1) \<and> mag (digits n) \<noteq> 0))"
proof
  assume n: "normalized n"
  from normalized_trimmed [OF n] normalized_sign_zero [OF n] normalized_sign_cases [OF n]
  show "trimmed (digits n)
     \<and> ((sign n = 0 \<and> mag (digits n) = 0) \<or> ((sign n = 1 \<or> sign n = - 1) \<and> mag (digits n) \<noteq> 0))"
    by auto
next
  assume a: "trimmed (digits n)
     \<and> ((sign n = 0 \<and> mag (digits n) = 0) \<or> ((sign n = 1 \<or> sign n = - 1) \<and> mag (digits n) \<noteq> 0))"
  show "normalized n"
  proof (cases "mag (digits n) = 0")
    case True
    with a have "digits n = [0]" "sign n = 0" using trimmed_zero by auto
    then show ?thesis by (simp add: normalized_def)
  next
    case False
    with a show ?thesis by (intro normalizedI) auto
  qed
qed

lemma normalized_mul_digit:
  assumes "normalized res"
  shows "normalized (bi_mul_digit_into res d)"
proof -
  from assms have pre: "digits res \<noteq> []" "sign res = 0 \<longrightarrow> mag (digits res) = 0"
    using normalized_digits_nonempty normalized_sign_zero by auto
  note p = bi_mul_digit_into_props [OF pre, of d]
  from assms have "(sign res = 1 \<or> sign res = - 1) \<or> mag (digits res) = 0"
    by (auto simp: normalized_iff)
  with p show ?thesis by (auto simp: normalized_iff)
qed

lemma normalized_add_digit:
  assumes "normalized res"
  shows "normalized (bi_add_digit_into res d)"
proof -
  from assms have pre: "digits res \<noteq> []" "sign res = 0 \<longrightarrow> mag (digits res) = 0"
    using normalized_digits_nonempty normalized_sign_zero by auto
  note p = bi_add_digit_into_props [OF pre, of d]
  have "d = 0 \<longleftrightarrow> unat d = 0" by (simp add: unat_eq_0)
  with assms p show ?thesis by (auto simp: normalized_iff)
qed

lemma from_dec_loop_normalized: "normalized res \<Longrightarrow> normalized (from_dec_loop res p)"
  by (induction p arbitrary: res) (simp_all add: normalized_mul_digit normalized_add_digit)

lemma bi_from_dec_normalized: "bi_from_dec s = Some r \<Longrightarrow> normalized r"
proof -
  assume a: "bi_from_dec s = Some r"
  have "normalized (from_dec_loop bi_create s)" by (rule from_dec_loop_normalized) simp
  with a show ?thesis by (auto simp: bi_from_dec_def bi_normalize_normalized split: if_splits)
qed

lemma bi_from_dec_returns: "s \<noteq> [] \<Longrightarrow> \<exists>r. bi_from_dec s = Some r"
  by (simp add: bi_from_dec_def)

lemma bi_div_mag:
  assumes "normalized a" "normalized b" "sign b \<noteq> 0"
  shows "\<exists>q. bi_div a b = Some q \<and> normalized q
           \<and> mag (digits q) = mag (digits a) div mag (digits b)"
proof -
  from bi_div_mod_abs_correct [OF assms] obtain q r where
    dm: "bi_div_mod_abs a b = Some (q, r)"
    and mq: "mag (digits q) = mag (digits a) div mag (digits b)"
    and ne: "digits q \<noteq> []" by blast
  define s :: int where "s = (if sign a = sign b then 1 else - 1)"
  define q' where "q' = bi_normalize (q\<lparr>sign := s\<rparr>)"
  have eq: "bi_div a b = Some q'" using assms(3) dm by (simp add: bi_div_def q'_def s_def)
  have "normalized q'"
    unfolding q'_def using ne by (intro normalized_bi_normalize) (auto simp: s_def)
  moreover have "mag (digits q') = mag (digits q)" by (simp add: q'_def)
  ultimately show ?thesis using eq mq by simp
qed

lemma pow_loop_total:
  assumes z: "normalized zero" "sign zero = 0"
      and t: "normalized two" "mag (digits two) = 2"
  shows "normalized result \<Longrightarrow> normalized current \<Longrightarrow> normalized n \<Longrightarrow>
           \<exists>r. pow_loop zero two result current n = Some r \<and> normalized r"
proof (induction "mag (digits n)" arbitrary: result current n rule: less_induct)
  case less
  have mz: "mag (digits zero) = 0" using normalized_sign_zero [OF z(1)] z(2) by simp
  have st: "sign two \<noteq> 0" using normalized_sign_zero [OF t(1)] t(2) by simp
  have cmp: "\<And>m. normalized m \<Longrightarrow> (bi_compare_abs m zero > 0) = (mag (digits m) > 0)"
    using bi_compare_abs_mag [OF normalized_trimmed normalized_trimmed [OF z(1)]] mz by simp
  show ?case
  proof (cases "mag (digits n) > 0")
    case False
    with cmp [OF less.prems(3)] less.prems(1) show ?thesis
      by (subst pow_loop.simps) simp
  next
    case True
    from bi_mod_correct [OF less.prems(3) t(1) st] obtain md where
      md: "bi_mod n two = Some md" by blast
    from bi_div_mag [OF less.prems(3) t(1) st] obtain q where
      q: "bi_div n two = Some q" "normalized q" "mag (digits q) = mag (digits n) div 2"
      by (auto simp: t(2))
    define result1 where "result1 = (if sign md \<noteq> 0 then bi_mul result current else result)"
    have r1: "normalized result1"
      using bi_mul_correct(1) [OF less.prems(1,2)] less.prems(1) by (simp add: result1_def)
    have c1: "normalized (bi_mul current current)" by (rule bi_mul_correct(1) [OF less.prems(2,2)])
    have unfold: "pow_loop zero two result current n =
        (if bi_compare_abs q zero \<le> 0 then Some result1
         else pow_loop zero two result1 (bi_mul current current) q)"
      using True cmp [OF less.prems(3)] md q(1)
      by (subst pow_loop.simps) (simp add: Let_def result1_def)
    show ?thesis
    proof (cases "bi_compare_abs q zero \<le> 0")
      case True
      with unfold r1 show ?thesis by simp
    next
      case False
      have "mag (digits q) < mag (digits n)" using q(3) True by simp
      from less.hyps [OF this r1 c1 q(2)] unfold False show ?thesis by simp
    qed
  qed
qed

lemma from_dec_consts:
  "bi_from_dec ''0'' = Some \<lparr>sign = 0, digits = [0], capacity = 4\<rparr>"
  "bi_from_dec ''1'' = Some \<lparr>sign = 1, digits = [1], capacity = 4\<rparr>"
  "bi_from_dec ''2'' = Some \<lparr>sign = 1, digits = [2], capacity = 4\<rparr>"
  "bi_from_dec ''-1'' = Some \<lparr>sign = 1, digits = [1], capacity = 4\<rparr>"
  by code_simp+

lemma bi_pow_normalized:
  assumes "normalized base" "normalized exponent"
  shows "\<exists>r. bi_pow base exponent = Some r \<and> normalized r"
proof -
  define zero where "zero = \<lparr>sign = 0, digits = [0], capacity = 4\<rparr>"
  define one where "one = \<lparr>sign = 1, digits = [1 :: u32], capacity = 4\<rparr>"
  define two where "two = \<lparr>sign = 1, digits = [2 :: u32], capacity = 4\<rparr>"
  have nz: "normalized zero" "sign zero = 0" by (simp_all add: zero_def normalized_def)
  have n1: "normalized one" by (simp add: one_def normalized_def)
  have n2: "normalized two" "mag (digits two) = 2" by (simp_all add: two_def normalized_def)
  note loop = pow_loop_total [OF nz n2 n1 assms]
  have "\<exists>r. pow_loop zero two one base exponent = Some r \<and> normalized r" by (rule loop)
  then show ?thesis
    using nz(1) n1 n2(1)
    by (auto simp: bi_pow_def from_dec_consts zero_def [symmetric] one_def [symmetric]
          two_def [symmetric] split: option.splits)
qed

lemma fact_loop_normalized_imp:
  assumes "fact_loop res i n = Some r"
  shows "normalized res \<longrightarrow> normalized r"
  using assms
proof (induct rule: fact_loop.raw_induct [rotated, consumes 1])
  case (1 fact_loop res i n r)
  show ?case
  proof
    assume nr: "normalized res"
    show "normalized r"
    proof (cases "i \<le> n")
      case True
      with 1(2) have "fact_loop (bi_mul_digit_into res i) (i + 1) n = Some r" by simp
      from 1(1) [OF this] normalized_mul_digit [OF nr] show ?thesis by simp
    next
      case False
      with 1(2) nr show ?thesis by simp
    qed
  qed
qed

lemma fact_loop_normalized:
  "fact_loop res i n = Some r \<Longrightarrow> normalized res \<Longrightarrow> normalized r"
  using fact_loop_normalized_imp by blast

lemma fact_loop_returns:
  assumes "unat n < 2 ^ 32 - 1"
  shows "\<exists>r. fact_loop res i n = Some r"
proof (induction "Suc (unat n) - unat i" arbitrary: res i rule: less_induct)
  case less
  show ?case
  proof (cases "i \<le> n")
    case False
    then show ?thesis by (subst fact_loop.simps) simp
  next
    case True
    then have le: "unat i \<le> unat n" by (simp add: word_le_nat_alt)
    with assms have "unat i + 1 < 2 ^ 32" by simp
    then have "unat (i + 1) = unat i + 1" by (simp add: unat_word_ariths)
    with le have "Suc (unat n) - unat (i + 1) < Suc (unat n) - unat i" by simp
    from less [OF this] obtain r where "fact_loop (bi_mul_digit_into res i) (i + 1) n = Some r"
      by blast
    with True show ?thesis by (subst fact_loop.simps) simp
  qed
qed

lemma bi_fact_normalized: "bi_fact n = Some r \<Longrightarrow> normalized r"
proof -
  assume a: "bi_fact n = Some r"
  have n1: "normalized (bi_create\<lparr>digits := (digits bi_create)[0 := 1], sign := 1\<rparr>)"
    by (simp add: normalized_def bi_create_def)
  show ?thesis
  proof (cases "n = 0 \<or> n = 1")
    case True
    with a have "bi_from_dec ''1'' = Some r" by (simp add: bi_fact_def)
    then show ?thesis by (rule bi_from_dec_normalized)
  next
    case False
    with a have "fact_loop (bi_create\<lparr>digits := (digits bi_create)[0 := 1], sign := 1\<rparr>) 2 n = Some r"
      by (simp add: bi_fact_def)
    from fact_loop_normalized [OF this n1] show ?thesis .
  qed
qed

lemma bi_fact_returns: "unat n < 2 ^ 32 - 1 \<Longrightarrow> \<exists>r. bi_fact n = Some r"
  using fact_loop_returns [of n] by (simp add: bi_fact_def bi_from_dec_def)

text \<open>For \<open>n = 2^32 - 1\<close> the test \<^verbatim>\<open>i <= n\<close> never fails: the loop does not end.\<close>

lemma fact_loop_max_imp:
  assumes "fact_loop res i n = Some r"
  shows "n \<noteq> - 1"
  using assms
proof (induct rule: fact_loop.raw_induct [rotated, consumes 1])
  case (1 fact_loop res i n r)
  show ?case
  proof (cases "i \<le> n")
    case True
    with 1(2) have "fact_loop (bi_mul_digit_into res i) (i + 1) n = Some r" by simp
    from 1(1) [OF this] show ?thesis .
  next
    case False
    then show ?thesis by auto
  qed
qed

lemma bi_fact_max: "bi_fact 0xFFFFFFFF = None"
proof -
  have "fact_loop (bi_create\<lparr>digits := (digits bi_create)[0 := 1], sign := 1\<rparr>) 2 (- 1) = None"
    using fact_loop_max_imp by (cases "fact_loop (bi_create\<lparr>digits := (digits bi_create)[0 := 1], sign := 1\<rparr>) 2 (- 1)") auto
  moreover have "(- 1 :: u32) = 0xFFFFFFFF" by simp
  ultimately have "fact_loop (bi_create\<lparr>digits := (digits bi_create)[0 := 1], sign := 1\<rparr>) 2 0xFFFFFFFF = None"
    by simp
  then show ?thesis by (simp add: bi_fact_def)
qed

text \<open>A code equation that decides this case without running the loop.\<close>

lemma bi_fact_code [code]:
  "bi_fact n =
     (if n = 0xFFFFFFFF then None
      else if n = 0 \<or> n = 1 then bi_from_dec ''1''
      else fact_loop (bi_create\<lparr>digits := (digits bi_create)[0 := 1], sign := 1\<rparr>) 2 n)"
  using bi_fact_max by (simp add: bi_fact_def)

lemma hex_outer_length: "hex_outer str i ds k = Some ds' \<Longrightarrow> length ds' = length ds"
proof (induction str i ds k rule: hex_outer.induct)
  case (1 str i ds k)
  show ?case
  proof (cases "i > 0")
    case False
    with "1.prems" show ?thesis by (subst (asm) hex_outer.simps) simp
  next
    case True
    with "1.prems" obtain i' cd where
      h: "hex_inner str i HEX_WIDTH 0 0 = Some (i', cd)"
      and r: "hex_outer str i' (ds[k := cd]) (k + 1) = Some ds'"
      by (subst (asm) hex_outer.simps) (auto split: option.splits)
    from "1.IH" [OF True h refl r] show ?thesis by simp
  qed
qed

lemma negative_parse_normalized:
  assumes "digits m \<noteq> []" "sign m = 1"
  shows "normalized (bi_normalize ((bi_add_digit_into m 1)\<lparr>sign := - 1\<rparr>))"
proof -
  have pre: "sign m = 0 \<longrightarrow> mag (digits m) = 0" using assms by simp
  from bi_add_digit_into_props(2) [OF assms(1) pre, of 1] show ?thesis
    by (intro normalized_bi_normalize) simp_all
qed

lemma bi_from_hex_normalized: "bi_from_hex s = Some r \<Longrightarrow> normalized r"
proof -
  assume a: "bi_from_hex s = Some r"
  define n where "n = length s"
  define required_digits where "required_digits = (n + 7) div HEX_WIDTH"
  define num where "num = (bi_resize bi_create required_digits)
                           \<lparr>digits := replicate required_digits 0, sign := 1\<rparr>"
  from a have ne: "s \<noteq> []" by (auto simp: bi_from_hex_def Let_def split: if_splits)
  from a have ok: "\<not> (\<exists>c \<in> set s. hex_value c = -1)"
    by (auto simp: bi_from_hex_def Let_def split: if_splits)
  from ne have "0 < n" by (simp add: n_def)
  then have rd: "0 < required_digits" by (simp add: required_digits_def HEX_WIDTH_def)
  have step1: "bi_from_hex s =
      (case hex_outer s n (digits num) 0 of
         None \<Rightarrow> None
       | Some ds \<Rightarrow>
           (let num1 = num\<lparr>digits := ds, sign := 1\<rparr>;
                first_val = hex_value (char_at s 0)
            in if first_val \<ge> 8
               then (let bits_used0 = (n mod HEX_WIDTH) * 4;
                         bits_used = (if bits_used0 = 0 then BITS_IN_WORD else bits_used0);
                         last_idx = length (digits num1) - 1;
                         ds1 = (if bits_used < BITS_IN_WORD
                                then (digits num1)
                                       [last_idx := digits num1 ! last_idx OR push_bit bits_used 0xFFFFFFFF]
                                else digits num1);
                         num2 = num1\<lparr>digits := map NOT ds1\<rparr>
                     in Some (bi_normalize ((bi_add_digit_into num2 1)\<lparr>sign := -1\<rparr>)))
               else Some (bi_normalize num1)))"
    unfolding bi_from_hex_def n_def required_digits_def num_def using ne ok
    by (simp only: Let_def if_False)
  from a step1 obtain ds where o: "hex_outer s n (digits num) 0 = Some ds"
    by (cases "hex_outer s n (digits num) 0") auto
  from hex_outer_length [OF o] rd have dne: "ds \<noteq> []" by (auto simp: num_def)
  define num1 where "num1 = num\<lparr>digits := ds, sign := 1\<rparr>"
  define bits_used0 where "bits_used0 = (n mod HEX_WIDTH) * 4"
  define bits_used where "bits_used = (if bits_used0 = 0 then BITS_IN_WORD else bits_used0)"
  define ds1 where "ds1 = (if bits_used < BITS_IN_WORD
                                then (digits num1)
                                       [length (digits num1) - 1 := digits num1 ! (length (digits num1) - 1) OR push_bit bits_used 0xFFFFFFFF]
                                else digits num1)"
  define num2 where "num2 = num1\<lparr>digits := map NOT ds1\<rparr>"
  have step2: "bi_from_hex s =
      (if hex_value (char_at s 0) \<ge> 8
       then Some (bi_normalize ((bi_add_digit_into num2 1)\<lparr>sign := -1\<rparr>))
       else Some (bi_normalize num1))"
    unfolding step1 o num2_def ds1_def bits_used_def bits_used0_def num1_def
    by (simp only: Let_def option.case)
  have p: "normalized (bi_normalize num1)"
    using dne by (intro normalized_bi_normalize) (simp_all add: num1_def)
  have "length ds1 = length ds" by (simp add: ds1_def num1_def)
  with dne have "ds1 \<noteq> []" by auto
  then have q: "normalized (bi_normalize ((bi_add_digit_into num2 1)\<lparr>sign := - 1\<rparr>))"
    by (intro negative_parse_normalized) (simp_all add: num2_def num1_def)
  from a p q show ?thesis unfolding step2 by (simp split: if_splits)
qed

lemma bin_loop_sign:
  "sign res = 1 \<Longrightarrow> digits res \<noteq> [] \<Longrightarrow>
     sign (bin_loop res p) = 1 \<and> digits (bin_loop res p) \<noteq> []"
proof (induction p arbitrary: res)
  case Nil
  then show ?case by simp
next
  case (Cons c p)
  have pre: "sign res = 0 \<longrightarrow> mag (digits res) = 0" using Cons.prems by simp
  note sh = bi_shift_left_one_props [OF pre]
  define res1 where "res1 = bi_shift_left_one res"
  define res2 where "res2 = (if c = CHR ''1''
           then res1\<lparr>digits := (digits res1)[0 := digits res1 ! 0 OR 1], sign := 1\<rparr>
           else res1)"
  have "sign res2 = 1" "digits res2 \<noteq> []"
    using sh(2,3) Cons.prems by (auto simp: res2_def res1_def)
  from Cons.IH [OF this] show ?case unfolding res2_def res1_def by (simp add: Let_def)
qed

lemma fill_loop_length [simp]: "length (fill_loop ds b k) = length ds"
  by (induction k arbitrary: ds b) (simp_all add: Let_def)

lemma bi_from_bin_normalized: "bi_from_bin s = Some r \<Longrightarrow> normalized r"
proof -
  assume a: "bi_from_bin s = Some r"
  define p where "p = (if char_at s 0 = CHR ''0'' \<and> (char_at s 1 = CHR ''b'' \<or> char_at s 1 = CHR ''B'')
               then drop 2 s else s)"
  define res where "res = (bi_resize bi_create ((length p + BITS_IN_WORD - 1) div BITS_IN_WORD))\<lparr>sign := 1\<rparr>"
  define res1 where "res1 = bin_loop res p"
  define ds where "ds = fill_loop (digits res1) (length p) (capacity res1 * BITS_IN_WORD - length p)"
  define res2 where "res2 = res1\<lparr>digits := map NOT ds\<rparr>"
  have step: "bi_from_bin s =
     (if \<exists>c \<in> set p. c \<noteq> CHR ''0'' \<and> c \<noteq> CHR ''1'' then None
      else if length p = 0 then None
      else if char_at p 0 = CHR ''1''
           then Some (bi_normalize ((bi_add_digit_into res2 1)\<lparr>sign := -1\<rparr>))
           else Some (bi_normalize res1))"
    unfolding bi_from_bin_def res2_def ds_def res1_def res_def p_def
    by (simp only: Let_def)
  have "sign res = 1" "digits res \<noteq> []" by (simp_all add: res_def bi_create_def)
  from bin_loop_sign [OF this] have s1: "sign res1 = 1" "digits res1 \<noteq> []"
    by (simp_all add: res1_def)
  have pos: "normalized (bi_normalize res1)"
    using s1 by (intro normalized_bi_normalize) simp_all
  have "length ds = length (digits res1)" by (simp add: ds_def)
  with s1 have "ds \<noteq> []" by auto
  then have neg: "normalized (bi_normalize ((bi_add_digit_into res2 1)\<lparr>sign := - 1\<rparr>))"
    using s1 by (intro negative_parse_normalized) (simp_all add: res2_def)
  from a pos neg show ?thesis unfolding step by (simp split: if_splits)
qed

section \<open>Verification\<close>

subsection \<open>Hexadecimal output of the shell\<close>

text \<open>
  The positive branch of \<^verbatim>\<open>bi_to_hex\<close>: leading zeros are skipped, the last digit
  kept; \<^verbatim>\<open>start--\<close> then steps back onto the last zero skipped, if there is one.
\<close>

lemma skip_zeros_suffix: "\<exists>k. raw = replicate k CHR ''0'' @ skip_zeros raw"
proof (induction raw rule: skip_zeros.induct)
  case (1 c d s)
  show ?case
  proof (cases "c = CHR ''0''")
    case True
    with 1 obtain k where "d # s = replicate k CHR ''0'' @ skip_zeros (d # s)" by auto
    then have "c # d # s = replicate (Suc k) CHR ''0'' @ skip_zeros (c # d # s)"
      using True by simp
    then show ?thesis by blast
  next
    case False
    then have "c # d # s = replicate 0 CHR ''0'' @ skip_zeros (c # d # s)" by simp
    then show ?thesis by blast
  qed
qed (auto intro: exI [of _ 0])

lemma bi_to_hex_positive:
  assumes "sign n = 1"
  shows "bi_to_hex n =
           ''0x'' @ (if is_sign_nibble (char_at (skip_zeros (concat (map hex8 (rev (digits n))))) 0)
                        \<and> length (skip_zeros (concat (map hex8 (rev (digits n)))))
                            < length (concat (map hex8 (rev (digits n))))
                     then CHR ''0'' # skip_zeros (concat (map hex8 (rev (digits n))))
                     else skip_zeros (concat (map hex8 (rev (digits n)))))"
proof -
  define raw where "raw = concat (map hex8 (rev (digits n)))"
  define s where "s = skip_zeros raw"
  from skip_zeros_suffix [of raw] obtain k where k: "raw = replicate k CHR ''0'' @ s"
    unfolding s_def by blast
  then have len: "length raw = k + length s" by (metis length_append length_replicate)
  have eq: "bi_to_hex n =
      ''0x'' @ (if is_sign_nibble (char_at s 0) \<and> length s \<noteq> length raw
                then drop (length raw - length s - 1) raw else s)"
    using assms by (simp add: bi_to_hex_def Let_def raw_def s_def)
  have dr: "drop (length raw - length s - 1) raw = CHR ''0'' # s" if "length s \<noteq> length raw"
  proof -
    from that len obtain k' where k': "k = Suc k'" by (cases k) auto
    have "drop (length raw - length s - 1) raw = drop k' (replicate (Suc k') CHR ''0'' @ s)"
      using len k k' by simp
    also have "replicate (Suc k') CHR ''0'' = replicate k' CHR ''0'' @ ''0''"
      by (simp add: replicate_append_same)
    also have "drop k' ((replicate k' CHR ''0'' @ ''0'') @ s) = CHR ''0'' # s" by simp
    finally show ?thesis .
  qed
  have ne: "(length s \<noteq> length raw) = (length s < length raw)" using len by auto
  show ?thesis
    unfolding eq using dr by (auto simp: ne raw_def [symmetric] s_def [symmetric])
qed

text \<open>
  Claim C3, as the code has it. After the command \<^verbatim>\<open>hex\<close> the expression \<^verbatim>\<open>255\<close> prints
  \<^verbatim>\<open>0x0ff\<close> and the expression \<^verbatim>\<open>-1\<close> prints \<^verbatim>\<open>0xf\<close>. For a positive value
  \<^verbatim>\<open>bi_to_hex\<close> skips the leading zeros of the eight-digit limbs and puts one \<^verbatim>\<open>0\<close>
  back when the first digit left is \<^verbatim>\<open>8\<close> to \<^verbatim>\<open>f\<close> and at least one zero was
  skipped; a value whose top limb has its high bit set has no zero to skip and is
  printed without one, as \<^verbatim>\<open>0x80000000\<close> and \<^verbatim>\<open>0xffffffff\<close> are.
\<close>

theorem hex_mode_output:
  "(sign n = 1 \<longrightarrow>
      bi_to_hex n =
        ''0x'' @ (if is_sign_nibble (char_at (skip_zeros (concat (map hex8 (rev (digits n))))) 0)
                     \<and> length (skip_zeros (concat (map hex8 (rev (digits n)))))
                         < length (concat (map hex8 (rev (digits n))))
                  then CHR ''0'' # skip_zeros (concat (map hex8 (rev (digits n))))
                  else skip_zeros (concat (map hex8 (rev (digits n))))))
   \<and> process_and_print BASE_DECIMAL ''hex'' = Some (BASE_HEX, [''hex''])
   \<and> process_and_print BASE_HEX ''255'' = Some (BASE_HEX, [''0x0ff''])
   \<and> process_and_print BASE_HEX ''-1'' = Some (BASE_HEX, [''0xf''])
   \<and> process_and_print BASE_HEX ''2147483648'' = Some (BASE_HEX, [''0x80000000''])
   \<and> process_and_print BASE_HEX ''4294967295'' = Some (BASE_HEX, [''0xffffffff''])"
proof (intro conjI impI)
  assume "sign n = 1"
  then show "bi_to_hex n =
        ''0x'' @ (if is_sign_nibble (char_at (skip_zeros (concat (map hex8 (rev (digits n))))) 0)
                     \<and> length (skip_zeros (concat (map hex8 (rev (digits n)))))
                         < length (concat (map hex8 (rev (digits n))))
                  then CHR ''0'' # skip_zeros (concat (map hex8 (rev (digits n))))
                  else skip_zeros (concat (map hex8 (rev (digits n)))))"
    by (rule bi_to_hex_positive)
next
  show "process_and_print BASE_DECIMAL ''hex'' = Some (BASE_HEX, [''hex''])" by code_simp
next
  show "process_and_print BASE_HEX ''255'' = Some (BASE_HEX, [''0x0ff''])" by code_simp
next
  show "process_and_print BASE_HEX ''-1'' = Some (BASE_HEX, [''0xf''])" by code_simp
next
  show "process_and_print BASE_HEX ''2147483648'' = Some (BASE_HEX, [''0x80000000''])" by code_simp
next
  show "process_and_print BASE_HEX ''4294967295'' = Some (BASE_HEX, [''0xffffffff''])" by code_simp
qed

theorem hex_mode_output_witness:
  "bi_to_hex \<lparr>sign = 1, digits = [255], capacity = 4\<rparr> = ''0x0ff''
   \<and> bi_to_hex \<lparr>sign = 1, digits = [0x80000000], capacity = 4\<rparr> = ''0x80000000''"
proof -
  have s: "sign \<lparr>sign = 1, digits = [255], capacity = 4\<rparr> = 1"
    "sign \<lparr>sign = 1, digits = [0x80000000], capacity = 4\<rparr> = 1" by simp_all
  have r1: "''0x'' @ (if is_sign_nibble (char_at (skip_zeros (concat (map hex8
                (rev (digits \<lparr>sign = 1, digits = [255], capacity = 4\<rparr>))))) 0)
              \<and> length (skip_zeros (concat (map hex8
                (rev (digits \<lparr>sign = 1, digits = [255], capacity = 4\<rparr>)))))
                  < length (concat (map hex8 (rev (digits \<lparr>sign = 1, digits = [255], capacity = 4\<rparr>))))
           then CHR ''0'' # skip_zeros (concat (map hex8
                (rev (digits \<lparr>sign = 1, digits = [255], capacity = 4\<rparr>))))
           else skip_zeros (concat (map hex8 (rev (digits \<lparr>sign = 1, digits = [255], capacity = 4\<rparr>)))))
         = ''0x0ff''"
    by code_simp
  have r2: "''0x'' @ (if is_sign_nibble (char_at (skip_zeros (concat (map hex8
                (rev (digits \<lparr>sign = 1, digits = [0x80000000], capacity = 4\<rparr>))))) 0)
              \<and> length (skip_zeros (concat (map hex8
                (rev (digits \<lparr>sign = 1, digits = [0x80000000], capacity = 4\<rparr>)))))
                  < length (concat (map hex8
                      (rev (digits \<lparr>sign = 1, digits = [0x80000000], capacity = 4\<rparr>))))
           then CHR ''0'' # skip_zeros (concat (map hex8
                (rev (digits \<lparr>sign = 1, digits = [0x80000000], capacity = 4\<rparr>))))
           else skip_zeros (concat (map hex8
                (rev (digits \<lparr>sign = 1, digits = [0x80000000], capacity = 4\<rparr>)))))
         = ''0x80000000''"
    by code_simp
  from hex_mode_output [of "\<lparr>sign = 1, digits = [255], capacity = 4\<rparr>", THEN conjunct1, rule_format, OF s(1)]
    hex_mode_output [of "\<lparr>sign = 1, digits = [0x80000000], capacity = 4\<rparr>", THEN conjunct1, rule_format,
      OF s(2)]
  show ?thesis unfolding r1 r2 by (rule conjI)
qed

text \<open>The output claimed for \<^verbatim>\<open>255\<close>, \<^verbatim>\<open>0xff\<close>, is not what is printed.\<close>

theorem hex_mode_255_counterexample:
  "process_and_print BASE_HEX ''255'' \<noteq> Some (BASE_HEX, [''0xff''])"
  by code_simp

subsection \<open>Unary signs in the validator\<close>

text \<open>The look-behind finds the previous character that is not white space, if any.\<close>

lemma scan_back_None: "(\<forall>k<i. isspace (char_at s k)) \<Longrightarrow> scan_back s i = None"
  by (induction i) auto

lemma scan_back_Some:
  "j < i \<Longrightarrow> \<not> isspace (char_at s j) \<Longrightarrow> (\<forall>k. j < k \<and> k < i \<longrightarrow> isspace (char_at s k))
     \<Longrightarrow> scan_back s i = Some j"
proof (induction i)
  case 0
  then show ?case by simp
next
  case (Suc i)
  show ?case
  proof (cases "j = i")
    case True
    with Suc.prems show ?thesis by simp
  next
    case False
    with Suc.prems have "j < i" by simp
    moreover from Suc.prems False have "isspace (char_at s i)" by simp
    moreover from Suc.prems have "\<forall>k. j < k \<and> k < i \<longrightarrow> isspace (char_at s k)" by simp
    ultimately show ?thesis using Suc.IH Suc.prems(2) by simp
  qed
qed

lemma validate_loop_sign:
  assumes "i < length input" and "input ! i = CHR ''-'' \<or> input ! i = CHR ''+''"
  shows "validate_loop input i e l d =
           (if sign_is_unary input i then validate_loop input (i + 1) e True d
            else \<not> l \<and> validate_loop input (i + 1) True True d)"
proof -
  from assms(2) have c: "\<not> isspace (input ! i)" "\<not> isdigit (input ! i)" "is_operator (input ! i)"
    "input ! i \<noteq> CHR ''(''" "input ! i \<noteq> CHR '')''" "input ! i \<noteq> CHR ''!''"
    by (auto simp: isspace_def isdigit_def is_operator_def code_of_def)
  show ?thesis
    by (subst validate_loop.simps) (simp add: assms c)
qed

text \<open>
  Claim C5, as the code has it. At a \<^verbatim>\<open>'-'\<close> or \<^verbatim>\<open>'+'\<close> the validator either takes the
  unary path (the index advances, \<^verbatim>\<open>expect_operand\<close> is kept and \<^verbatim>\<open>last_was_operator\<close>
  is set) or the binary path (rejected after an operator, otherwise an operand is
  expected next). With only white space before the sign both signs are unary. A
  \<^verbatim>\<open>'-'\<close> is unary when the previous character that is not white space is \<^verbatim>\<open>'('\<close> or
  one of the binary operators \<^verbatim>\<open>+ - * / % ^\<close>, and binary when it is \<^verbatim>\<open>'!'\<close> or no
  operator character at all. A \<^verbatim>\<open>'+'\<close> is unary after \<^verbatim>\<open>'('\<close> and binary after any
  other character.
\<close>

theorem validator_sign_classification:
  assumes "i < length input" and "input ! i = CHR ''-'' \<or> input ! i = CHR ''+''"
  shows "((\<forall>k<i. isspace (input ! k)) \<longrightarrow>
            validate_loop input i e l d = validate_loop input (i + 1) e True d)
       \<and> (\<forall>j. j < i \<and> \<not> isspace (input ! j) \<and> (\<forall>k. j < k \<and> k < i \<longrightarrow> isspace (input ! k)) \<longrightarrow>
            (if input ! i = CHR ''-''
             then (input ! j \<in> set ''(+-*/%^'' \<longrightarrow>
                     validate_loop input i e l d = validate_loop input (i + 1) e True d)
                \<and> (input ! j = CHR ''!'' \<or> \<not> is_operator (input ! j) \<longrightarrow>
                     validate_loop input i e l d = (\<not> l \<and> validate_loop input (i + 1) True True d))
             else (input ! j = CHR ''('' \<longrightarrow>
                     validate_loop input i e l d = validate_loop input (i + 1) e True d)
                \<and> (input ! j \<noteq> CHR ''('' \<longrightarrow>
                     validate_loop input i e l d = (\<not> l \<and> validate_loop input (i + 1) True True d))))"
proof (intro conjI impI allI)
  assume a: "\<forall>k<i. isspace (input ! k)"
  with assms(1) have "\<forall>k<i. isspace (char_at input k)" by (simp add: char_at_def)
  then have "scan_back input i = None" by (rule scan_back_None)
  then have "sign_is_unary input i" by (simp add: sign_is_unary_def)
  with validate_loop_sign [OF assms] show "validate_loop input i e l d = validate_loop input (i + 1) e True d"
    by simp
next
  fix j
  assume a: "j < i \<and> \<not> isspace (input ! j) \<and> (\<forall>k. j < k \<and> k < i \<longrightarrow> isspace (input ! k))"
  with assms(1) have sb: "scan_back input i = Some j"
    by (intro scan_back_Some) (auto simp: char_at_def)
  from a assms(1) have cj: "char_at input j = input ! j" and ci: "char_at input i = input ! i"
    by (auto simp: char_at_def)
  show "if input ! i = CHR ''-''
        then (input ! j \<in> set ''(+-*/%^'' \<longrightarrow>
                validate_loop input i e l d = validate_loop input (i + 1) e True d)
           \<and> (input ! j = CHR ''!'' \<or> \<not> is_operator (input ! j) \<longrightarrow>
                validate_loop input i e l d = (\<not> l \<and> validate_loop input (i + 1) True True d))
        else (input ! j = CHR ''('' \<longrightarrow>
                validate_loop input i e l d = validate_loop input (i + 1) e True d)
           \<and> (input ! j \<noteq> CHR ''('' \<longrightarrow>
                validate_loop input i e l d = (\<not> l \<and> validate_loop input (i + 1) True True d))"
    using assms(2) sb cj ci
    by (auto simp: validate_loop_sign [OF assms] sign_is_unary_def is_operator_def)
qed

theorem validator_sign_classification_witness:
  "validate_loop ''2*-3'' 2 True True 0 = validate_loop ''2*-3'' (2 + 1) True True 0"
proof -
  have h1: "(2::nat) < length ''2*-3''" by simp
  have h2: "''2*-3'' ! 2 = CHR ''-'' \<or> ''2*-3'' ! 2 = CHR ''+''" by simp
  have h3: "\<forall>k::nat. 1 < k \<and> k < 2 \<longrightarrow> isspace (''2*-3'' ! k)" by auto
  have h4: "\<not> isspace (''2*-3'' ! 1)" by (simp add: isspace_def code_of_def)
  note t = validator_sign_classification [OF h1 h2, of True True 0, THEN conjunct2, THEN spec, where x = 1]
  with h3 h4 show ?thesis by simp
qed

text \<open>
  The claim's last part fails: a second leading minus after a minus is unary as well, and
  the validator accepts the chain.
\<close>

theorem chained_minus_counterexample: "validate_expression_syntax ''--5''"
  by code_simp

subsection \<open>Accepted strings that fail in the evaluator\<close>

text \<open>
  The look-behind of the validator takes \<^verbatim>\<open>')'\<close> for an operator, so a \<^verbatim>\<open>'-'\<close> after a
  closing parenthesis counts as unary: \<^verbatim>\<open>(1)+2\<close> is accepted and \<^verbatim>\<open>(1)-2\<close> is not.
\<close>

lemma minus_after_paren_rejected:
  "validate_expression_syntax ''(1)+2'' \<and> \<not> validate_expression_syntax ''(1)-2''"
  by code_simp

text \<open>
  Claim C6 at two failing inputs. The validator accepts \<^verbatim>\<open>((1)-)\<close> and \<^verbatim>\<open>(1)-!\<close>; the
  evaluator, for which the same \<^verbatim>\<open>'-'\<close> is binary, runs out of operands on the first
  and meets \<^verbatim>\<open>'!'\<close> in operand position on the second.
\<close>

theorem accepted_string_fails_in_evaluator:
  "validate_expression_syntax ''((1)-)''
   \<and> eval_expression ''((1)-)'' (False, []) = (Inl StackUnderflow, (False, []))
   \<and> validate_expression_syntax ''(1)-!''
   \<and> eval_expression ''(1)-!'' (False, []) = (Inl MisplacedOperator, (False, []))"
  by code_simp

subsection \<open>Round trips through hexadecimal and binary text\<close>

text \<open>
  Claim C2 at two failing inputs. The positive value \<open>2^31\<close> is rendered as
  \<^verbatim>\<open>0x80000000\<close>, with no \<^verbatim>\<open>0\<close> in front because no digit was stripped, and parses back
  as \<open>- 2^31\<close>. The negative value \<open>- (2^32 - 1)\<close> is complemented within its one limb,
  is rendered as \<^verbatim>\<open>0b1\<close> and parses back as \<open>- 1\<close>.
\<close>

theorem hex_bin_round_trip_fails:
  "bi_from_dec ''2147483648'' = Some \<lparr>sign = 1, digits = [0x80000000], capacity = 4\<rparr>
   \<and> bi_to_hex \<lparr>sign = 1, digits = [0x80000000], capacity = 4\<rparr> = ''0x80000000''
   \<and> map_option (\<lambda>r. (sign r, digits r)) (bi_from_hex ''80000000'') = Some (- 1, [0x80000000])
   \<and> bi_to_bin \<lparr>sign = - 1, digits = [0xFFFFFFFF], capacity = 4\<rparr> = ''0b1''
   \<and> map_option (\<lambda>r. (sign r, digits r)) (bi_from_bin ''1'') = Some (- 1, [1])"
  by code_simp

subsection \<open>Powers of minus one\<close>

text \<open>
  The base cases of \<^verbatim>\<open>bi_pow\<close> that the code has: exponent zero gives one, base zero
  gives zero, a negative exponent gives zero.
\<close>

lemma pow_base_cases:
  "sign y = 0 \<Longrightarrow> bi_pow x y = Some \<lparr>sign = 1, digits = [1], capacity = 4\<rparr>"
  "sign y \<noteq> 0 \<Longrightarrow> sign x = 0 \<Longrightarrow> bi_pow x y = Some \<lparr>sign = 0, digits = [0], capacity = 4\<rparr>"
  "sign y = - 1 \<Longrightarrow> bi_pow x y = Some \<lparr>sign = 0, digits = [0], capacity = 4\<rparr>"
  by (simp_all add: bi_pow_def from_dec_consts)

lemma pow_minus_one_any:
  assumes "sign y = 1"
  shows "bi_pow \<lparr>sign = - 1, digits = [1], capacity = c\<rparr> y
           = Some \<lparr>sign = 1, digits = [1], capacity = 4\<rparr>"
proof -
  have cmp: "bi_compare_abs \<lparr>sign = - 1, digits = [1], capacity = c\<rparr>
               \<lparr>sign = 1, digits = [1], capacity = 4\<rparr> = 0"
    by (simp add: bi_compare_abs_def)
  show ?thesis
    using assms cmp by (simp add: bi_pow_def from_dec_consts split: option.splits)
qed

text \<open>
  Claim C8 where it fails. For the base \<open>- 1\<close> and every positive exponent, odd or even,
  \<^verbatim>\<open>bi_pow\<close> returns \<open>+ 1\<close>: for an odd exponent it parses the text \<^verbatim>\<open>-1\<close> with
  \<^verbatim>\<open>bi_from_dec\<close>, which skips the minus sign. The shell prints \<^verbatim>\<open>1\<close> for
  \<^verbatim>\<open>(-1)^3\<close>.
\<close>

theorem pow_minus_one_odd:
  "(sign y = 1 \<longrightarrow>
      bi_pow \<lparr>sign = - 1, digits = [1], capacity = c\<rparr> y
        = Some \<lparr>sign = 1, digits = [1], capacity = 4\<rparr>)
   \<and> process_and_print BASE_DECIMAL ''(-1)^3'' = Some (BASE_DECIMAL, [''1''])"
proof (intro conjI impI)
  assume "sign y = 1"
  then show "bi_pow \<lparr>sign = - 1, digits = [1], capacity = c\<rparr> y
        = Some \<lparr>sign = 1, digits = [1], capacity = 4\<rparr>"
    by (rule pow_minus_one_any)
next
  show "process_and_print BASE_DECIMAL ''(-1)^3'' = Some (BASE_DECIMAL, [''1''])" by code_simp
qed

theorem pow_minus_one_odd_witness:
  "bi_pow \<lparr>sign = - 1, digits = [1], capacity = 4\<rparr> \<lparr>sign = 1, digits = [3], capacity = 4\<rparr>
     = Some \<lparr>sign = 1, digits = [1], capacity = 4\<rparr>"
  using pow_minus_one_odd [of "\<lparr>sign = 1, digits = [3], capacity = 4\<rparr>" 4] by simp

subsection \<open>Division and remainder\<close>

text \<open>
  Claim C1. For normalized \<open>x\<close> and \<open>y\<close> with \<open>y\<close> not zero, \<^verbatim>\<open>bi_div\<close> and
  \<^verbatim>\<open>bi_mod\<close> both return, and with \<open>q\<close> the quotient and \<open>r\<close> the remainder,
  \<open>q * y + r\<close> computed by \<^verbatim>\<open>bi_mul\<close> and \<^verbatim>\<open>bi_add\<close> has the sign and the limbs of \<open>x\<close>;
  the remainder is zero or has the sign of \<open>x\<close>, and its magnitude is below that of \<open>y\<close>
  (which \<^verbatim>\<open>bi_compare_abs\<close> reports as \<open>-1\<close>).
\<close>

theorem division_identity:
  assumes "normalized x" "normalized y" "sign y \<noteq> 0"
  shows "\<exists>q r. bi_div x y = Some q \<and> bi_mod x y = Some r
           \<and> sign (bi_add (bi_mul q y) r) = sign x
           \<and> digits (bi_add (bi_mul q y) r) = digits x
           \<and> (sign r = 0 \<or> sign r = sign x)
           \<and> mag (digits r) < mag (digits y)
           \<and> bi_compare_abs r y = - 1"
proof -
  define A where "A = mag (digits x)"
  define B where "B = mag (digits y)"
  define s :: int where "s = (if sign x = sign y then 1 else - 1)"
  from bi_div_correct [OF assms] obtain q where
    q: "bi_div x y = Some q" "normalized q" "bi_val q = s * int (A div B)"
    by (auto simp: A_def B_def s_def)
  from bi_mod_correct [OF assms] obtain r where
    r: "bi_mod x y = Some r" "normalized r" "mag (digits r) = A mod B"
       "sign r = (if A mod B = 0 then 0 else sign x)"
    by (auto simp: A_def B_def)
  from assms(2,3) have Bpos: "0 < B" using normalized_sign_zero [of y] by (simp add: B_def)
  note sx = normalized_sign_cases [OF assms(1)] and sy = normalized_sign_cases [OF assms(2)]
  have zx: "sign x = 0 \<longleftrightarrow> A = 0" using normalized_sign_zero [OF assms(1)] by (simp add: A_def)
  note m = bi_mul_correct [OF q(2) assms(2)]
  note a = bi_add_correct [OF m(1) r(2)]
  have vr: "bi_val r = sign x * int (A mod B)" using r(3,4) by (simp add: bi_val_def)
  have vy: "bi_val y = sign y * int B" by (simp add: bi_val_def B_def)
  have ss: "sign x \<noteq> 0 \<Longrightarrow> s * sign y = sign x" using sx sy assms(3) by (auto simp: s_def)
  have "bi_val (bi_add (bi_mul q y) r) = bi_val x"
  proof (cases "sign x = 0")
    case True
    with zx have "A = 0" by simp
    with True show ?thesis unfolding a(2) m(2) q(3) vr vy by (simp add: bi_val_def)
  next
    case False
    have "s * int (A div B) * (sign y * int B) + sign x * int (A mod B)
            = (s * sign y) * (int (A div B) * int B) + sign x * int (A mod B)"
      by (simp add: algebra_simps)
    also have "\<dots> = sign x * (int (A div B) * int B + int (A mod B))"
      unfolding ss [OF False] by (simp add: algebra_simps)
    also have "int (A div B) * int B + int (A mod B) = int A"
      by (metis div_mult_mod_eq of_nat_add of_nat_mult)
    finally show ?thesis unfolding a(2) m(2) q(3) vr vy by (simp add: bi_val_def A_def)
  qed
  from normalized_unique [OF a(1) assms(1) this] have
    same: "sign (bi_add (bi_mul q y) r) = sign x" "digits (bi_add (bi_mul q y) r) = digits x"
    by simp_all
  have lt: "mag (digits r) < mag (digits y)" using r(3) Bpos by (simp add: B_def)
  have "bi_compare_abs r y = - 1"
    using bi_compare_abs_mag [OF normalized_trimmed [OF r(2)] normalized_trimmed [OF assms(2)]] lt
    by simp
  with q(1) r(1,4) same lt show ?thesis by auto
qed

theorem division_identity_witness:
  "\<exists>q r. bi_div \<lparr>sign = - 1, digits = [7], capacity = 4\<rparr> \<lparr>sign = 1, digits = [2], capacity = 4\<rparr> = Some q
         \<and> bi_mod \<lparr>sign = - 1, digits = [7], capacity = 4\<rparr> \<lparr>sign = 1, digits = [2], capacity = 4\<rparr> = Some r
         \<and> sign (bi_add (bi_mul q \<lparr>sign = 1, digits = [2], capacity = 4\<rparr>) r) = - 1
         \<and> digits (bi_add (bi_mul q \<lparr>sign = 1, digits = [2], capacity = 4\<rparr>) r) = [7]
         \<and> sign r = - 1 \<and> digits r = [1] \<and> sign q = - 1 \<and> digits q = [3]"
proof -
  have n1: "normalized \<lparr>sign = - 1, digits = [7], capacity = 4\<rparr>" by (simp add: normalized_def)
  have n2: "normalized \<lparr>sign = 1, digits = [2], capacity = 4\<rparr>" by (simp add: normalized_def)
  have n3: "sign \<lparr>sign = 1, digits = [2], capacity = 4\<rparr> \<noteq> 0" by simp
  have d: "bi_div \<lparr>sign = - 1, digits = [7], capacity = 4\<rparr> \<lparr>sign = 1, digits = [2], capacity = 4\<rparr>
             = Some \<lparr>sign = - 1, digits = [3], capacity = 4\<rparr>" by code_simp
  have m: "bi_mod \<lparr>sign = - 1, digits = [7], capacity = 4\<rparr> \<lparr>sign = 1, digits = [2], capacity = 4\<rparr>
             = Some \<lparr>sign = - 1, digits = [1], capacity = 4\<rparr>" by code_simp
  from division_identity [OF n1 n2 n3] d m show ?thesis by auto
qed

subsection \<open>The normalized form as an invariant\<close>

text \<open>
  Claim C10. \<^verbatim>\<open>bi_normalize\<close> is idempotent, and the public operations return values in
  normalized form: \<^verbatim>\<open>bi_create\<close> (zero) always; \<^verbatim>\<open>bi_copy\<close>, \<^verbatim>\<open>bi_negate\<close>,
  \<^verbatim>\<open>bi_add\<close>, \<^verbatim>\<open>bi_sub\<close>, \<^verbatim>\<open>bi_mul\<close> and \<^verbatim>\<open>bi_pow\<close> on normalized arguments
  (\<^verbatim>\<open>bi_pow\<close> returns on all of them); \<^verbatim>\<open>bi_div\<close> and \<^verbatim>\<open>bi_mod\<close> on normalized arguments
  with a divisor that is not zero, where they return; \<^verbatim>\<open>bi_fact\<close>, which returns for every
  argument below \<open>2^32 - 1\<close>; and the three parsers \<^verbatim>\<open>bi_from_dec\<close>, \<^verbatim>\<open>bi_from_hex\<close>
  and \<^verbatim>\<open>bi_from_bin\<close> whenever they return a number.
\<close>

theorem operations_normalized:
  "bi_normalize (bi_normalize n) = bi_normalize n
   \<and> normalized bi_create
   \<and> (normalized x \<longrightarrow> normalized (bi_copy x) \<and> normalized (bi_negate x))
   \<and> (normalized x \<and> normalized y \<longrightarrow>
        normalized (bi_add x y) \<and> normalized (bi_sub x y) \<and> normalized (bi_mul x y)
        \<and> (\<exists>r. bi_pow x y = Some r \<and> normalized r))
   \<and> (normalized x \<and> normalized y \<and> sign y \<noteq> 0 \<longrightarrow>
        (\<exists>q. bi_div x y = Some q \<and> normalized q) \<and> (\<exists>r. bi_mod x y = Some r \<and> normalized r))
   \<and> (unat k < 2 ^ 32 - 1 \<longrightarrow> (\<exists>r. bi_fact k = Some r))
   \<and> (bi_fact k = Some f \<longrightarrow> normalized f)
   \<and> (bi_from_dec sd = Some d \<longrightarrow> normalized d)
   \<and> (bi_from_hex sh = Some h \<longrightarrow> normalized h)
   \<and> (bi_from_bin sb = Some b \<longrightarrow> normalized b)"
proof (intro conjI impI)
  show "bi_normalize (bi_normalize n) = bi_normalize n" by (rule bi_normalize_idem)
  show "normalized bi_create" by simp
next
  assume "normalized x"
  then show "normalized (bi_copy x)" by simp
next
  assume "normalized x"
  then show "normalized (bi_negate x)" by (rule bi_negate_correct(1))
next
  assume "normalized x \<and> normalized y"
  then show "normalized (bi_add x y)" by (simp add: bi_add_correct(1))
next
  assume "normalized x \<and> normalized y"
  then show "normalized (bi_sub x y)" by (simp add: bi_sub_correct(1))
next
  assume "normalized x \<and> normalized y"
  then show "normalized (bi_mul x y)" by (simp add: bi_mul_correct(1))
next
  assume "normalized x \<and> normalized y"
  then show "\<exists>r. bi_pow x y = Some r \<and> normalized r" by (simp add: bi_pow_normalized)
next
  assume "normalized x \<and> normalized y \<and> sign y \<noteq> 0"
  then show "\<exists>q. bi_div x y = Some q \<and> normalized q" using bi_div_mag [of x y] by blast
next
  assume "normalized x \<and> normalized y \<and> sign y \<noteq> 0"
  then show "\<exists>r. bi_mod x y = Some r \<and> normalized r" using bi_mod_correct [of x y] by blast
next
  assume "unat k < 2 ^ 32 - 1"
  then show "\<exists>r. bi_fact k = Some r" by (rule bi_fact_returns)
next
  assume "bi_fact k = Some f"
  then show "normalized f" by (rule bi_fact_normalized)
next
  assume "bi_from_dec sd = Some d"
  then show "normalized d" by (rule bi_from_dec_normalized)
next
  assume "bi_from_hex sh = Some h"
  then show "normalized h" by (rule bi_from_hex_normalized)
next
  assume "bi_from_bin sb = Some b"
  then show "normalized b" by (rule bi_from_bin_normalized)
qed

theorem operations_normalized_witness:
  "normalized (bi_negate \<lparr>sign = - 1, digits = [7], capacity = 4\<rparr>)
   \<and> normalized (bi_add \<lparr>sign = - 1, digits = [7], capacity = 4\<rparr> \<lparr>sign = 1, digits = [2], capacity = 4\<rparr>)
   \<and> normalized (bi_sub \<lparr>sign = - 1, digits = [7], capacity = 4\<rparr> \<lparr>sign = 1, digits = [2], capacity = 4\<rparr>)
   \<and> normalized (bi_mul \<lparr>sign = - 1, digits = [7], capacity = 4\<rparr> \<lparr>sign = 1, digits = [2], capacity = 4\<rparr>)
   \<and> (\<exists>r. bi_pow \<lparr>sign = - 1, digits = [7], capacity = 4\<rparr> \<lparr>sign = 1, digits = [2], capacity = 4\<rparr> = Some r
            \<and> normalized r)
   \<and> (\<exists>q. bi_div \<lparr>sign = - 1, digits = [7], capacity = 4\<rparr> \<lparr>sign = 1, digits = [2], capacity = 4\<rparr> = Some q
            \<and> normalized q)
   \<and> (\<exists>r. bi_mod \<lparr>sign = - 1, digits = [7], capacity = 4\<rparr> \<lparr>sign = 1, digits = [2], capacity = 4\<rparr> = Some r
            \<and> normalized r)
   \<and> bi_fact 5 = Some \<lparr>sign = 1, digits = [120], capacity = 4\<rparr>
   \<and> normalized \<lparr>sign = 1, digits = [120], capacity = 4\<rparr>
   \<and> bi_from_dec ''4294967296'' = Some \<lparr>sign = 1, digits = [0, 1], capacity = 4\<rparr>
   \<and> normalized \<lparr>sign = 1, digits = [0, 1], capacity = 4\<rparr>
   \<and> bi_from_hex ''f0'' = Some \<lparr>sign = - 1, digits = [16], capacity = 4\<rparr>
   \<and> normalized \<lparr>sign = - 1, digits = [16], capacity = 4\<rparr>
   \<and> bi_from_bin ''0101'' = Some \<lparr>sign = 1, digits = [5], capacity = 4\<rparr>
   \<and> normalized \<lparr>sign = 1, digits = [5], capacity = 4\<rparr>"
proof -
  have n1: "normalized \<lparr>sign = - 1, digits = [7], capacity = 4\<rparr>" by (simp add: normalized_def)
  have n2: "normalized \<lparr>sign = 1, digits = [2], capacity = 4\<rparr>" by (simp add: normalized_def)
  have n3: "sign \<lparr>sign = 1, digits = [2], capacity = 4\<rparr> \<noteq> 0" by simp
  have k: "unat (5 :: u32) < 2 ^ 32 - 1" by simp
  have f: "bi_fact 5 = Some \<lparr>sign = 1, digits = [120], capacity = 4\<rparr>" by code_simp
  have d: "bi_from_dec ''4294967296'' = Some \<lparr>sign = 1, digits = [0, 1], capacity = 4\<rparr>"
    by code_simp
  have h: "bi_from_hex ''f0'' = Some \<lparr>sign = - 1, digits = [16], capacity = 4\<rparr>" by code_simp
  have b: "bi_from_bin ''0101'' = Some \<lparr>sign = 1, digits = [5], capacity = 4\<rparr>" by code_simp
  from operations_normalized
         [where x = "\<lparr>sign = - 1, digits = [7], capacity = 4\<rparr>"
            and y = "\<lparr>sign = 1, digits = [2], capacity = 4\<rparr>"
            and k = 5 and f = "\<lparr>sign = 1, digits = [120], capacity = 4\<rparr>"
            and sd = "''4294967296''" and d = "\<lparr>sign = 1, digits = [0, 1], capacity = 4\<rparr>"
            and sh = "''f0''" and h = "\<lparr>sign = - 1, digits = [16], capacity = 4\<rparr>"
            and sb = "''0101''" and b = "\<lparr>sign = 1, digits = [5], capacity = 4\<rparr>"]
       n1 n2 n3 k f d h b
  show ?thesis by blast
qed

subsection \<open>Binary literals with a leading one\<close>

text \<open>
  \<open>bin_val 0 s\<close> is the number a string of binary digits denotes when read unsigned; the
  two's-complement reading over \<open>length s\<close> bits of a string with a leading one is that
  number minus \<open>2 ^ length s\<close>.
\<close>

fun bin_val :: "nat \<Rightarrow> string \<Rightarrow> nat" where
  "bin_val acc [] = acc"
| "bin_val acc (c # p) = bin_val (2 * acc + (if c = CHR ''1'' then 1 else 0)) p"

lemma bin_val_acc: "bin_val acc p = acc * 2 ^ length p + bin_val 0 p"
proof (induction p arbitrary: acc)
  case Nil
  then show ?case by simp
next
  case (Cons c p)
  show ?case
    using Cons.IH [of "2 * acc + (if c = CHR ''1'' then 1 else 0)"]
      Cons.IH [of "if c = CHR ''1'' then 1 else 0"]
    by (simp add: algebra_simps)
qed

lemma bin_val_bound: "bin_val 0 p < 2 ^ length p"
proof (induction p rule: rev_induct)
  case Nil
  then show ?case by simp
next
  case (snoc c p)
  have "bin_val 0 (p @ [c]) = 2 * bin_val 0 p + (if c = CHR ''1'' then 1 else 0)"
  proof -
    have "\<And>acc. bin_val acc (p @ [c]) = 2 * bin_val acc p + (if c = CHR ''1'' then 1 else 0)"
      by (induction p) simp_all
    then show ?thesis by simp
  qed
  with snoc show ?case by simp
qed

lemma bin_val_leading_one: "2 ^ length p \<le> bin_val 0 (CHR ''1'' # p)"
  using bin_val_acc [of 1 p] by simp

lemma shift_capacity:
  "sign n \<noteq> 0 \<Longrightarrow> length (digits (bi_shift_left_one n)) \<le> capacity (bi_shift_left_one n)"
proof -
  assume s: "sign n \<noteq> 0"
  obtain ds carry where l: "shift_loop (digits n) 0 = (ds, carry)"
    by (cases "shift_loop (digits n) 0") blast
  have "unat (0 :: u32) \<le> 1" by simp
  from shift_loop_mag [OF this l] have ll: "length ds = length (digits n)" by simp
  have "length (digits n) + 1 \<le> capacity (bi_resize n (length (digits n) + 1))"
    by (simp add: bi_resize_def)
  with s l ll show ?thesis by (auto simp: bi_shift_left_one_def Let_def)
qed

lemma bin_loop_mag:
  "sign res = 1 \<Longrightarrow> digits res \<noteq> [] \<Longrightarrow> length (digits res) \<le> capacity res \<Longrightarrow>
     mag (digits (bin_loop res p)) = bin_val (mag (digits res)) p
     \<and> length (digits (bin_loop res p)) \<le> capacity (bin_loop res p)"
proof (induction p arbitrary: res)
  case Nil
  then show ?case by simp
next
  case (Cons c p)
  have pre: "sign res = 0 \<longrightarrow> mag (digits res) = 0" using Cons.prems by simp
  note sh = bi_shift_left_one_props [OF pre]
  define res1 where "res1 = bi_shift_left_one res"
  define res2 where "res2 = (if c = CHR ''1''
           then res1\<lparr>digits := (digits res1)[0 := digits res1 ! 0 OR 1], sign := 1\<rparr>
           else res1)"
  have ne1: "digits res1 \<noteq> []" using sh(3) Cons.prems by (simp add: res1_def)
  have ev: "even (mag (digits res1))" using sh(1) by (simp add: res1_def)
  have cap1: "length (digits res1) \<le> capacity res1"
    unfolding res1_def using Cons.prems by (intro shift_capacity) simp
  have s2: "sign res2 = 1" "digits res2 \<noteq> []"
    using sh(2) ne1 Cons.prems by (auto simp: res2_def res1_def)
  have cap2: "length (digits res2) \<le> capacity res2" using cap1 by (simp add: res2_def)
  have m2: "mag (digits res2) = 2 * mag (digits res) + (if c = CHR ''1'' then 1 else 0)"
    using mag_or_one [OF ne1 ev] sh(1) by (simp add: res2_def res1_def)
  from Cons.IH [OF s2 cap2] show ?case
    unfolding m2 unfolding res2_def res1_def by (simp add: Let_def)
qed

lemma fill_loop_mag:
  assumes "bv < 2 ^ n" "n \<le> 32 * length ds"
  shows "n \<le> b \<Longrightarrow> mag ds = bv + (2 ^ min b (32 * length ds) - 2 ^ n) \<Longrightarrow> length ds = L \<Longrightarrow>
           mag (fill_loop ds b k) = bv + (2 ^ min (b + k) (32 * L) - 2 ^ n)"
proof (induction k arbitrary: ds b)
  case 0
  then show ?case by simp
next
  case (Suc k)
  show ?case
  proof (cases "b < 32 * L")
    case False
    then have "b div 32 \<ge> L" by simp
    then have st: "fill_loop ds b (Suc k) = fill_loop ds (b + 1) k"
      using Suc.prems(3) by (simp add: Let_def BITS_IN_WORD_def)
    have "min b (32 * length ds) = min (b + 1) (32 * length ds)"
      using False Suc.prems(3) by simp
    with Suc.prems have "mag ds = bv + (2 ^ min (b + 1) (32 * length ds) - 2 ^ n)" by simp
    from Suc.IH [OF _ this Suc.prems(3)] Suc.prems(1) show ?thesis unfolding st by simp
  next
    case True
    then have idx: "b div 32 < length ds" using Suc.prems(3) by simp
    have bi: "b mod 32 < 32" by simp
    have b: "32 * (b div 32) + b mod 32 = b" by simp
    have pw: "(2 :: nat) ^ n \<le> 2 ^ b" using Suc.prems(1) by simp
    have m: "mag ds = bv + (2 ^ b - 2 ^ n)" using Suc.prems(2,3) True by simp
    with assms(1) pw have "mag ds < 2 ^ b" by linarith
    then have nb: "\<not> bit (mag ds) (32 * (b div 32) + b mod 32)"
      unfolding b using bit_ge_power [of "mag ds" b] by auto
    define ds' where "ds' = ds[b div 32 := ds ! (b div 32) OR push_bit (b mod 32) 1]"
    have m': "mag ds' = mag ds + 2 ^ b"
      unfolding ds'_def using mag_set_bit [OF idx bi nb] b by simp
    have l': "length ds' = L" using Suc.prems(3) by (simp add: ds'_def)
    have st: "fill_loop ds b (Suc k) = fill_loop ds' (b + 1) k"
      using idx by (simp add: Let_def BITS_IN_WORD_def ds'_def)
    have "min (b + 1) (32 * length ds') = b + 1" using True l' by simp
    moreover have "mag ds' = bv + (2 ^ (b + 1) - 2 ^ n)"
    proof -
      have "(2 :: nat) ^ (b + 1) = 2 ^ b + 2 ^ b" by simp
      with m m' pw show ?thesis by linarith
    qed
    ultimately have "mag ds' = bv + (2 ^ min (b + 1) (32 * length ds') - 2 ^ n)" by simp
    from Suc.IH [OF _ this l'] Suc.prems(1) show ?thesis unfolding st by simp
  qed
qed

lemma unat_NOT_u32: "unat (NOT d) + unat d = 2 ^ 32 - 1" for d :: u32
proof -
  have "NOT d = - 1 - d" by (simp add: not_eq_complement)
  moreover have "d \<le> - 1" by simp
  ultimately have "unat (NOT d) = unat (- 1 :: u32) - unat d" by (simp add: unat_sub)
  moreover have "unat (- 1 :: u32) = 2 ^ 32 - 1"
    by (simp add: unsigned_minus_1_eq_mask mask_eq_exp_minus_1)
  moreover have "unat d \<le> 2 ^ 32 - 1" using unat_u32_bound [of d] by simp
  ultimately show ?thesis by simp
qed

lemma mag_map_NOT: "mag (map NOT ds) + mag ds + 1 = 2 ^ (32 * length ds)"
proof (induction ds)
  case Nil
  then show ?case by simp
next
  case (Cons d ds)
  have "mag (map NOT (d # ds)) + mag (d # ds) + 1
          = (unat (NOT d) + unat d) + 2 ^ 32 * (mag (map NOT ds) + mag ds + 1) + 1 - 2 ^ 32"
    by (simp add: algebra_simps)
  also have "\<dots> = 2 ^ 32 * 2 ^ (32 * length ds)" unfolding Cons.IH unat_NOT_u32 by simp
  finally show ?case by (simp add: power_add)
qed

lemma bi_from_bin_leading_one:
  assumes "s \<noteq> []" "set s \<subseteq> {CHR ''0'', CHR ''1''}" "s ! 0 = CHR ''1''"
  shows "\<exists>r. bi_from_bin s = Some r \<and> normalized r
           \<and> bi_val r = int (bin_val 0 s) - 2 ^ length s"
proof -
  define n where "n = length s"
  define bv where "bv = bin_val 0 s"
  define res where "res = (bi_resize bi_create ((length s + BITS_IN_WORD - 1) div BITS_IN_WORD))\<lparr>sign := 1\<rparr>"
  define res1 where "res1 = bin_loop res s"
  define ds where "ds = fill_loop (digits res1) (length s) (capacity res1 * BITS_IN_WORD - length s)"
  define res2 where "res2 = res1\<lparr>digits := map NOT ds\<rparr>"
  define r where "r = bi_normalize ((bi_add_digit_into res2 1)\<lparr>sign := - 1\<rparr>)"
  have c0: "char_at s 0 = CHR ''1''" using assms(1,3) by (simp add: char_at_def)
  have ok: "\<not> (\<exists>c \<in> set s. c \<noteq> CHR ''0'' \<and> c \<noteq> CHR ''1'')" using assms(2) by auto
  have eq: "bi_from_bin s = Some r"
    unfolding bi_from_bin_def r_def res2_def ds_def res1_def res_def
    using c0 ok assms(1) by (simp add: Let_def)
  have r0: "sign res = 1" "digits res \<noteq> []" "length (digits res) \<le> capacity res"
    by (simp_all add: res_def bi_create_def bi_resize_def INITIAL_CAPACITY_def)
  have mres: "mag (digits res) = 0" by (simp add: res_def bi_create_def)
  from bin_loop_mag [OF r0, of s] have m1: "mag (digits res1) = bv"
    and cap1: "length (digits res1) \<le> capacity res1"
    by (simp_all add: res1_def bv_def mres)
  from bin_loop_sign [OF r0(1,2), of s] have s1: "sign res1 = 1" "digits res1 \<noteq> []"
    by (simp_all add: res1_def)
  define L where "L = length (digits res1)"
  have bvn: "bv < 2 ^ n" unfolding bv_def n_def by (rule bin_val_bound)
  from assms(1,3) obtain p where sp: "s = CHR ''1'' # p" by (cases s) auto
  have lo: "2 ^ (n - 1) \<le> bv" using bin_val_leading_one [of p] by (simp add: bv_def n_def sp)
  have "bv < 2 ^ (32 * L)" using mag_bound [of "digits res1"] m1 by (simp add: L_def)
  with lo have "(2 :: nat) ^ (n - 1) < 2 ^ (32 * L)" by linarith
  then have "n - 1 < 32 * L" by simp
  moreover have "0 < n" using assms(1) by (simp add: n_def)
  ultimately have nL: "n \<le> 32 * L" by simp
  have start: "mag (digits res1) = bv + (2 ^ min n (32 * length (digits res1)) - 2 ^ n)"
    using nL m1 by (simp add: L_def min_def)
  have "32 * L \<le> n + (capacity res1 * BITS_IN_WORD - n)"
    using cap1 by (simp add: L_def BITS_IN_WORD_def)
  then have mn: "min (n + (capacity res1 * BITS_IN_WORD - n)) (32 * L) = 32 * L" by simp
  from fill_loop_mag [OF bvn nL [unfolded L_def] le_refl start L_def [symmetric],
      of "capacity res1 * BITS_IN_WORD - n"]
  have mds: "mag ds = bv + (2 ^ (32 * L) - 2 ^ n)" unfolding mn by (simp add: ds_def n_def)
  have lds: "length ds = L" by (simp add: ds_def L_def)
  have pw: "(2 :: nat) ^ n \<le> 2 ^ (32 * L)" using nL by simp
  from mag_map_NOT [of ds] have "mag (map NOT ds) + mag ds + 1 = 2 ^ (32 * L)" by (simp add: lds)
  with mds pw bvn have mnot: "mag (map NOT ds) + 1 + bv = 2 ^ n" by linarith
  have pre: "digits res2 \<noteq> []" "sign res2 = 0 \<longrightarrow> mag (digits res2) = 0"
    using s1 lds by (auto simp: res2_def L_def)
  note ad = bi_add_digit_into_props [OF pre, of 1]
  have mag2: "mag (digits (bi_add_digit_into res2 1)) + bv = 2 ^ n"
    using ad(1) mnot by (simp add: res2_def)
  have nr: "normalized r"
    unfolding r_def using ad(2) by (intro normalized_bi_normalize) simp_all
  have pos: "mag (digits (bi_add_digit_into res2 1)) \<noteq> 0" using mag2 bvn by auto
  have "bi_val r = - int (mag (digits (bi_add_digit_into res2 1)))"
    unfolding r_def bi_val_def using ad(2) pos by (simp add: sign_bi_normalize)
  also have "\<dots> = int bv - 2 ^ n"
  proof -
    from mag2 have "int (mag (digits (bi_add_digit_into res2 1))) + int bv = 2 ^ n"
      by (metis of_nat_add of_nat_numeral of_nat_power)
    then show ?thesis by simp
  qed
  finally have "bi_val r = int (bin_val 0 s) - 2 ^ length s" by (simp add: bv_def n_def)
  with eq nr show ?thesis by blast
qed

text \<open>
  Claim C7. For every non-empty string \<open>s\<close> of the characters \<^verbatim>\<open>0\<close> and \<^verbatim>\<open>1\<close> whose first
  character is \<^verbatim>\<open>1\<close>, \<^verbatim>\<open>bi_from_bin\<close> returns the normalized number whose value is the
  two's-complement reading of \<open>s\<close> over \<open>length s\<close> bits. The literal \<^verbatim>\<open>0b1000\<close> parses
  to \<open>-8\<close>, and the shell in decimal mode prints \<^verbatim>\<open>0\<close> for \<^verbatim>\<open>0b1000 + 8\<close>.
\<close>

theorem binary_literal_twos_complement:
  "(s \<noteq> [] \<and> set s \<subseteq> {CHR ''0'', CHR ''1''} \<and> s ! 0 = CHR ''1'' \<longrightarrow>
      (\<exists>r. bi_from_bin s = Some r \<and> normalized r
            \<and> bi_val r = int (bin_val 0 s) - 2 ^ length s))
   \<and> bi_from_str ''0b1000'' = Some \<lparr>sign = - 1, digits = [8], capacity = 4\<rparr>
   \<and> process_and_print BASE_DECIMAL ''0b1000 + 8'' = Some (BASE_DECIMAL, [''0''])"
proof (intro conjI impI)
  assume "s \<noteq> [] \<and> set s \<subseteq> {CHR ''0'', CHR ''1''} \<and> s ! 0 = CHR ''1''"
  then show "\<exists>r. bi_from_bin s = Some r \<and> normalized r
            \<and> bi_val r = int (bin_val 0 s) - 2 ^ length s"
    using bi_from_bin_leading_one [of s] by blast
next
  show "bi_from_str ''0b1000'' = Some \<lparr>sign = - 1, digits = [8], capacity = 4\<rparr>" by code_simp
next
  show "process_and_print BASE_DECIMAL ''0b1000 + 8'' = Some (BASE_DECIMAL, [''0''])" by code_simp
qed

theorem binary_literal_twos_complement_witness:
  "\<exists>r. bi_from_bin ''1000'' = Some r \<and> normalized r \<and> bi_val r = - 8"
proof -
  have h: "''1000'' \<noteq> [] \<and> set ''1000'' \<subseteq> {CHR ''0'', CHR ''1''} \<and> ''1000'' ! 0 = CHR ''1''"
    by simp
  have v: "int (bin_val 0 ''1000'') - 2 ^ length ''1000'' = - 8" by simp
  from binary_literal_twos_complement [of "''1000''"] h show ?thesis unfolding v by blast
qed

subsection \<open>Decimal text and back\<close>

text \<open>
  \<open>dec_val 0 s\<close> is the number \<^verbatim>\<open>bi_from_dec\<close> reads from \<open>s\<close>: Horner's rule over the
  decimal digits, any other character skipped. \<open>dec_chars n\<close> are the decimal digits of
  \<open>n\<close>, the lowest first, as the loop of \<^verbatim>\<open>bi_to_dec\<close> writes them.
\<close>

fun dec_val :: "nat \<Rightarrow> string \<Rightarrow> nat" where
  "dec_val acc [] = acc"
| "dec_val acc (c # p) =
     dec_val (if 48 \<le> code_of c \<and> code_of c \<le> 57 then 10 * acc + (code_of c - 48) else acc) p"

fun dec_chars :: "nat \<Rightarrow> string" where
  "dec_chars n = (if n = 0 then [] else char_of (n mod 10 + 48) # dec_chars (n div 10))"

declare dec_chars.simps [simp del]

lemma code_of_digit: "k < 10 \<Longrightarrow> code_of (char_of (k + 48)) = k + 48"
  by (simp add: code_of_def)

lemma code_of_consts:
  "code_of CHR ''0'' = 48" "code_of CHR ''-'' = 45" "code_of CHR ''+'' = 43"
  "code_of CHR ''b'' = 98" "code_of CHR ''B'' = 66" "code_of CHR ''x'' = 120"
  "code_of CHR ''X'' = 88" "code_of NUL = 0"
  by (simp_all add: code_of_def NUL_def)

lemma digit_char_facts:
  assumes "isdigit c"
  shows "\<not> isspace c" "c \<noteq> CHR ''-''" "c \<noteq> CHR ''+''" "c \<noteq> CHR ''b''" "c \<noteq> CHR ''B''"
    "c \<noteq> CHR ''x''" "c \<noteq> CHR ''X''" "c \<noteq> NUL"
  using assms code_of_consts by (auto simp: isdigit_def isspace_def)

lemma dec_val_snoc:
  "dec_val acc (p @ [c]) =
     (if 48 \<le> code_of c \<and> code_of c \<le> 57 then 10 * dec_val acc p + (code_of c - 48)
      else dec_val acc p)"
  by (induction p arbitrary: acc) simp_all

lemma dec_val_dec_chars: "dec_val 0 (rev (dec_chars n)) = n"
proof (induction n rule: less_induct)
  case (less n)
  show ?case
  proof (cases "n = 0")
    case True
    then show ?thesis by (simp add: dec_chars.simps)
  next
    case False
    then have "n div 10 < n" by simp
    from less [OF this] have ih: "dec_val 0 (rev (dec_chars (n div 10))) = n div 10" .
    have c: "code_of (char_of (n mod 10 + 48)) = n mod 10 + 48" by (rule code_of_digit) simp
    have dc: "dec_chars n = char_of (n mod 10 + 48) # dec_chars (n div 10)"
      using False by (subst dec_chars.simps) simp
    have le: "n mod 10 \<le> 9" by presburger
    have "dec_val 0 (rev (dec_chars n)) = 10 * (n div 10) + n mod 10"
      unfolding dc by (simp add: dec_val_snoc c ih le)
    then show ?thesis by simp
  qed
qed

lemma dec_chars_digits: "c \<in> set (dec_chars n) \<Longrightarrow> isdigit c"
proof (induction n rule: less_induct)
  case (less n)
  show ?case
  proof (cases "n = 0")
    case True
    with less.prems show ?thesis by (simp add: dec_chars.simps)
  next
    case False
    then have lt: "n div 10 < n" by simp
    have c: "code_of (char_of (n mod 10 + 48)) = n mod 10 + 48" by (rule code_of_digit) simp
    have "dec_chars n = char_of (n mod 10 + 48) # dec_chars (n div 10)"
      using False by (subst dec_chars.simps) simp
    with less.prems have "c = char_of (n mod 10 + 48) \<or> c \<in> set (dec_chars (n div 10))" by simp
    then show ?thesis
    proof
      assume "c = char_of (n mod 10 + 48)"
      with c show ?thesis by (simp add: isdigit_def)
    next
      assume "c \<in> set (dec_chars (n div 10))"
      from less.IH [OF lt this] show ?thesis .
    qed
  qed
qed

lemma dec_chars_nonempty: "0 < n \<Longrightarrow> dec_chars n \<noteq> []"
  by (subst dec_chars.simps) simp

lemma to_dec_loop_correct:
  "digits copy \<noteq> [] \<Longrightarrow> sign copy = (if mag (digits copy) = 0 then 0 else 1) \<Longrightarrow>
     to_dec_loop copy buffer = Some (buffer @ dec_chars (mag (digits copy)))"
proof (induction "mag (digits copy)" arbitrary: copy buffer rule: less_induct)
  case less
  show ?case
  proof (cases "mag (digits copy) = 0")
    case True
    with less.prems show ?thesis
      by (subst to_dec_loop.simps) (simp add: dec_chars.simps)
  next
    case False
    with less.prems have s: "sign copy = 1" by simp
    obtain copy' remainder where d: "bi_div10_into copy = (copy', remainder)"
      by (cases "bi_div10_into copy") blast
    have pre: "sign copy = 0 \<longrightarrow> mag (digits copy) = 0" using s by simp
    note p = bi_div10_into_props [OF less.prems(1) pre d]
    from p(1,2) have q: "mag (digits copy') = mag (digits copy) div 10"
      and r: "unat remainder = mag (digits copy) mod 10" by presburger+
    have lt: "mag (digits copy') < mag (digits copy)" using q False by simp
    have s': "sign copy' = (if mag (digits copy') = 0 then 0 else 1)" using p(4) s by simp
    have "to_dec_loop copy buffer
            = to_dec_loop copy' (buffer @ [char_of (unat remainder + code_of CHR ''0'')])"
      using s d by (subst to_dec_loop.simps) simp
    also have "\<dots> = Some ((buffer @ [char_of (unat remainder + code_of CHR ''0'')])
                          @ dec_chars (mag (digits copy')))"
      by (rule less.hyps [OF lt p(3) s'])
    also have "(buffer @ [char_of (unat remainder + code_of CHR ''0'')]) @ dec_chars (mag (digits copy'))
                 = buffer @ dec_chars (mag (digits copy))"
      using False by (subst (2) dec_chars.simps) (simp add: q r code_of_consts)
    finally show ?thesis .
  qed
qed

lemma from_dec_loop_mag:
  "normalized res \<Longrightarrow> 0 \<le> sign res \<Longrightarrow>
     normalized (from_dec_loop res p) \<and> 0 \<le> sign (from_dec_loop res p)
     \<and> mag (digits (from_dec_loop res p)) = dec_val (mag (digits res)) p"
proof (induction p arbitrary: res)
  case Nil
  then show ?case by simp
next
  case (Cons c p)
  show ?case
  proof (cases "48 \<le> code_of c \<and> code_of c \<le> 57")
    case False
    then have "from_dec_loop res (c # p) = from_dec_loop res p"
      and "dec_val (mag (digits res)) (c # p) = dec_val (mag (digits res)) p"
      by auto
    with Cons.IH [OF Cons.prems] show ?thesis by simp
  next
    case True
    define v :: u32 where "v = word_of_nat (code_of c - 48)"
    have "code_of c - 48 < (2 :: nat) ^ 32" using True by auto
    then have uv: "unat v = code_of c - 48" by (simp only: v_def unat_of_nat) simp
    define r1 where "r1 = bi_mul_digit_into res BASE_DEC"
    define r2 where "r2 = bi_add_digit_into r1 v"
    have pre: "digits res \<noteq> []" "sign res = 0 \<longrightarrow> mag (digits res) = 0"
      using Cons.prems normalized_digits_nonempty normalized_sign_zero by auto
    note m = bi_mul_digit_into_props [OF pre, of BASE_DEC, folded r1_def]
    have n1: "normalized r1" unfolding r1_def by (rule normalized_mul_digit [OF Cons.prems(1)])
    have pre1: "digits r1 \<noteq> []" "sign r1 = 0 \<longrightarrow> mag (digits r1) = 0"
      using n1 normalized_digits_nonempty normalized_sign_zero by auto
    note a = bi_add_digit_into_props [OF pre1, of v, folded r2_def]
    have n2: "normalized r2" unfolding r2_def by (rule normalized_add_digit [OF n1])
    have s1: "0 \<le> sign r1" using m(3) Cons.prems(2) by simp
    have s2: "0 \<le> sign r2" using a(3) s1 by simp
    have m2: "mag (digits r2) = 10 * mag (digits res) + (code_of c - 48)"
      using a(1) m(1) uv by (simp add: BASE_DEC_def)
    have step: "from_dec_loop res (c # p) = from_dec_loop r2 p"
      unfolding r2_def r1_def v_def using True by (simp only: from_dec_loop.simps simp_thms if_True)
    have vstep: "dec_val (mag (digits res)) (c # p)
                   = dec_val (10 * mag (digits res) + (code_of c - 48)) p"
      using True by (simp only: dec_val.simps simp_thms if_True)
    from Cons.IH [OF n2 s2] show ?thesis unfolding m2 step vstep .
  qed
qed

lemma bi_from_dec_value:
  assumes "s \<noteq> []"
  shows "\<exists>r. bi_from_dec s = Some r \<and> normalized r \<and> 0 \<le> sign r
           \<and> mag (digits r) = dec_val 0 s"
proof -
  have "normalized bi_create" by simp
  moreover have "0 \<le> sign bi_create" by (simp add: bi_create_def)
  ultimately have "normalized (from_dec_loop bi_create s) \<and> 0 \<le> sign (from_dec_loop bi_create s)
     \<and> mag (digits (from_dec_loop bi_create s)) = dec_val (mag (digits bi_create)) s"
    by (rule from_dec_loop_mag)
  moreover have "mag (digits bi_create) = 0" by (simp add: bi_create_def)
  ultimately show ?thesis using assms
    by (simp add: bi_from_dec_def bi_normalize_normalized)
qed

lemma bi_to_dec_value:
  assumes "normalized x"
  shows "bi_to_dec x =
           Some (if sign x = 0 then ''0''
                 else (if sign x = - 1 then ''-'' else []) @ rev (dec_chars (mag (digits x))))"
proof (cases "sign x = 0")
  case True
  then show ?thesis by (simp add: bi_to_dec_def)
next
  case False
  with normalized_sign_zero [OF assms] have nz: "mag (digits x) \<noteq> 0" by simp
  have "to_dec_loop (x\<lparr>sign := 1\<rparr>) [] = Some ([] @ dec_chars (mag (digits (x\<lparr>sign := 1\<rparr>))))"
    using normalized_digits_nonempty [OF assms] nz by (intro to_dec_loop_correct) simp_all
  with False show ?thesis by (simp add: bi_to_dec_def)
qed

lemma from_str_decimal:
  assumes "ds \<noteq> []" "\<forall>c \<in> set ds. isdigit c"
  shows "bi_from_str ds =
           (case bi_from_dec ds of None \<Rightarrow> None | Some num \<Rightarrow> Some num)"
    and "bi_from_str (CHR ''-'' # ds) =
           (case bi_from_dec ds of
              None \<Rightarrow> None
            | Some num \<Rightarrow> Some (if sign num \<noteq> 0 then num\<lparr>sign := - sign num\<rparr> else num))"
proof -
  from assms obtain d rest where ds: "ds = d # rest" by (cases ds) auto
  with assms(2) have dd: "isdigit d" by simp
  note df = digit_char_facts [OF dd]
  have c1: "char_at ds 1 \<noteq> CHR ''b'' \<and> char_at ds 1 \<noteq> CHR ''B''
            \<and> char_at ds 1 \<noteq> CHR ''x'' \<and> char_at ds 1 \<noteq> CHR ''X''"
  proof (cases rest)
    case Nil
    then show ?thesis by (simp add: char_at_def ds NUL_def)
  next
    case (Cons e rest')
    with assms(2) ds have "isdigit e" by simp
    from digit_char_facts [OF this] show ?thesis by (simp add: char_at_def ds Cons)
  qed
  have c0: "char_at ds 0 = d" by (simp add: char_at_def ds)
  have dw: "dropWhile isspace ds = ds" using df(1) by (simp add: ds)
  have ms: "\<not> isspace CHR ''-''" by (simp add: isspace_def code_of_consts)
  show "bi_from_str ds = (case bi_from_dec ds of None \<Rightarrow> None | Some num \<Rightarrow> Some num)"
    unfolding bi_from_str_def using df c1
    by (simp add: Let_def dw c0 split: option.splits)
  have cm: "char_at (CHR ''-'' # ds) 0 = CHR ''-''" by (simp add: char_at_def)
  show "bi_from_str (CHR ''-'' # ds) =
           (case bi_from_dec ds of
              None \<Rightarrow> None
            | Some num \<Rightarrow> Some (if sign num \<noteq> 0 then num\<lparr>sign := - sign num\<rparr> else num))"
    unfolding bi_from_str_def using df c1 ms
    by (simp add: Let_def dw c0 cm split: option.splits)
qed

lemma dec_val_minus: "dec_val 0 (CHR ''-'' # ds) = dec_val 0 ds"
  by (simp add: code_of_consts)

text \<open>
  Claim C4, as it holds. For every normalized \<open>x\<close>, \<^verbatim>\<open>bi_to_dec\<close> returns a string;
  \<^verbatim>\<open>bi_from_str\<close> parses that string back to the sign and the limbs of \<open>x\<close>, and
  \<^verbatim>\<open>bi_from_dec\<close> parses it to the limbs of \<open>x\<close> with the sign \<open>\<bar>sign x\<bar>\<close>: it skips the
  leading \<^verbatim>\<open>-\<close>, so it returns \<open>x\<close> itself exactly when \<open>x\<close> is not negative.
\<close>

theorem decimal_round_trip:
  assumes "normalized x"
  shows "\<exists>s. bi_to_dec x = Some s
           \<and> (\<exists>r. bi_from_str s = Some r \<and> sign r = sign x \<and> digits r = digits x)
           \<and> (\<exists>r. bi_from_dec s = Some r \<and> sign r = \<bar>sign x\<bar> \<and> digits r = digits x)"
proof -
  define ds where "ds = (if sign x = 0 then ''0'' else rev (dec_chars (mag (digits x))))"
  define s where "s = (if sign x = - 1 then CHR ''-'' # ds else ds)"
  have ts: "bi_to_dec x = Some s"
    unfolding bi_to_dec_value [OF assms] by (simp add: s_def ds_def)
  note z = normalized_sign_zero [OF assms]
  have ne: "ds \<noteq> []" using z dec_chars_nonempty [of "mag (digits x)"] by (simp add: ds_def)
  have dg: "\<forall>c \<in> set ds. isdigit c"
    using dec_chars_digits by (auto simp: ds_def isdigit_def code_of_consts)
  have dv: "dec_val 0 ds = mag (digits x)"
    using z by (simp add: ds_def dec_val_dec_chars code_of_consts)
  from bi_from_dec_value [OF ne] obtain num where
    num: "bi_from_dec ds = Some num" "normalized num" "0 \<le> sign num"
      "mag (digits num) = mag (digits x)"
    using dv by auto
  have dig: "digits num = digits x"
    using trimmed_unique [OF normalized_trimmed [OF num(2)] normalized_trimmed [OF assms] num(4)] .
  have sg: "sign num = \<bar>sign x\<bar>"
    using normalized_sign_zero [OF num(2)] normalized_sign_cases [OF num(2)] num(3,4) z
      normalized_sign_cases [OF assms] by auto
  note fs = from_str_decimal [OF ne dg]
  have "\<exists>r. bi_from_str s = Some r \<and> sign r = sign x \<and> digits r = digits x"
  proof (cases "sign x = - 1")
    case True
    then show ?thesis unfolding s_def using fs(2) num(1) sg dig by simp
  next
    case False
    with normalized_sign_cases [OF assms] have "\<bar>sign x\<bar> = sign x" by auto
    with False show ?thesis unfolding s_def using fs(1) num(1) sg dig by simp
  qed
  moreover have "\<exists>r. bi_from_dec s = Some r \<and> sign r = \<bar>sign x\<bar> \<and> digits r = digits x"
  proof (cases "sign x = - 1")
    case False
    then show ?thesis unfolding s_def using num(1) sg dig by simp
  next
    case True
    have "CHR ''-'' # ds \<noteq> []" by simp
    from bi_from_dec_value [OF this] obtain r where
      r: "bi_from_dec (CHR ''-'' # ds) = Some r" "normalized r" "0 \<le> sign r"
        "mag (digits r) = mag (digits x)"
      using dv dec_val_minus by auto
    have "digits r = digits x"
      using trimmed_unique [OF normalized_trimmed [OF r(2)] normalized_trimmed [OF assms] r(4)] .
    moreover have "sign r = \<bar>sign x\<bar>"
      using normalized_sign_zero [OF r(2)] normalized_sign_cases [OF r(2)] r(3,4) z
        normalized_sign_cases [OF assms] by auto
    ultimately show ?thesis unfolding s_def using True r(1) by simp
  qed
  ultimately show ?thesis using ts by blast
qed

theorem decimal_round_trip_witness:
  "\<exists>s. bi_to_dec \<lparr>sign = - 1, digits = [5], capacity = 4\<rparr> = Some s
       \<and> (\<exists>r. bi_from_str s = Some r \<and> sign r = - 1 \<and> digits r = [5])
       \<and> (\<exists>r. bi_from_dec s = Some r \<and> sign r = 1 \<and> digits r = [5])"
proof -
  have n: "normalized \<lparr>sign = - 1, digits = [5], capacity = 4\<rparr>" by (simp add: normalized_def)
  from decimal_round_trip [OF n] show ?thesis by simp
qed

text \<open>For \<open>-5\<close> the decimal text is \<^verbatim>\<open>-5\<close>, and \<^verbatim>\<open>bi_from_dec\<close> reads it as \<open>+5\<close>.\<close>

theorem from_decimal_drops_sign_counterexample:
  "bi_to_dec \<lparr>sign = - 1, digits = [5], capacity = 4\<rparr> = Some ''-5''
   \<and> bi_from_dec ''-5'' = Some \<lparr>sign = 1, digits = [5], capacity = 4\<rparr>"
  by code_simp

subsection \<open>Which failures the evaluator reports itself\<close>

text \<open>
  The state a run that started with the flag false and nothing printed can end in: the
  message and the flag for the two domain errors, nothing printed and the flag false
  for every other outcome.
\<close>

definition reported :: "(eval_error + 'a) \<Rightarrow> eval_state \<Rightarrow> bool" where
  "reported r st =
     (if r = Inl DivisionByZero then st = (True, [''Division by zero!''])
      else if r = Inl NegativeFactorial
      then st = (True, [''Input of factorial must not be negative!''])
      else st = (False, []))"

lemma reported_Inr [simp]: "reported (Inr v) st = (st = (False, []))"
  by (simp add: reported_def)

lemma binary_result_error:
  "binary_result op left right = Inl e \<Longrightarrow> e = OperationFailed \<or> e = DoesNotReturn"
  by (auto simp: binary_result_def split: if_splits option.splits)






text \<open>Where the three failures of \<^verbatim>\<open>apply_operation\<close> on factorial and division come from.\<close>

lemma apply_operation_error_cases:
  assumes "apply_operation ns op st = (Inl e, st')"
  shows "(e = DivisionByZero \<longleftrightarrow>
            (\<exists>right left rest. ns = right # left # rest \<and> (op = CHR ''/'' \<or> op = CHR ''%'')
               \<and> sign right = 0))
       \<and> (e = NegativeFactorial \<longleftrightarrow>
            (\<exists>right rest. ns = right # rest \<and> op = CHR ''!'' \<and> sign right = - 1))
       \<and> (e = FactorialTooLarge \<longleftrightarrow>
            (\<exists>right rest. ns = right # rest \<and> op = CHR ''!'' \<and> sign right \<noteq> - 1
               \<and> length (digits right) > 1))"
  using assms
  by (auto simp: apply_operation_def dest: binary_result_error
        split: list.splits if_splits option.splits sum.splits)























text \<open>
  One failure is no return at all: the validator accepts \<^verbatim>\<open>4294967295!\<close>, the operand has
  one limb, and \<^verbatim>\<open>bi_fact\<close> does not return on it; neither do the evaluator and the
  shell.
\<close>

lemma factorial_of_max_does_not_return:
  "apply_operation [\<lparr>sign = 1, digits = [0xFFFFFFFF], capacity = 4\<rparr>] CHR ''!'' st
     = (Inl DoesNotReturn, st)"
  by (simp add: apply_operation_def bi_fact_max)

lemma shell_factorial_of_max:
  "eval_expression ''4294967295!'' (False, []) = (Inl DoesNotReturn, (False, []))
   \<and> validate_expression_syntax ''4294967295!''
   \<and> process_and_print BASE_DECIMAL ''4294967295!'' = None"
  by code_simp

end
